theory Spec2Isabelle
  imports Main "HOL-Library.Sublist"
begin

section \<open>Tangram Play: the YAML tag-address helpers and the scene loader\<close>

text \<open>
  The development follows the JavaScript sources: the ``common functions'' that walk
  the indentation levels of the YAML document held by the editor (\<open>getLineTag\<close>,
  \<open>getParentLine\<close>, \<open>getInverseTags\<close>, \<open>getTags\<close>, \<open>getYAMLContent\<close>,
  \<open>tagsToAddress\<close>, \<open>getColorBlockShader\<close>), the editor's \<open>updateContent\<close>,
  and \<open>determineScene\<close> and \<open>load\<close> of \<open>tangram-play.js\<close>.

  Strings are lists of 8-bit characters (code units below 256). A JavaScript
  exception is a value of type \<open>js_error\<close>; a function that may throw returns a sum
  with the error on the left. A loop that may run forever is a partial function into
  \<open>option\<close>, where \<open>None\<close> stands for ``never returns''.
\<close>

subsection \<open>Errors and character classes\<close>

datatype js_error = TypeError | Error string

text \<open>The class \<open>\s\<close> of a JavaScript regular expression, on code units below 256:
  tab, line feed, vertical tab, form feed, carriage return, space and no-break space.\<close>

definition isSpace :: "char \<Rightarrow> bool" where
  "isSpace c = (let n = (of_char c :: nat) in (9 \<le> n \<and> n \<le> 13) \<or> n = 32 \<or> n = 160)"

text \<open>The class \<open>\w\<close>: ASCII letters, digits and the underscore.\<close>

definition isWord :: "char \<Rightarrow> bool" where
  "isWord c = (let n = (of_char c :: nat) in
     (48 \<le> n \<and> n \<le> 57) \<or> (65 \<le> n \<and> n \<le> 90) \<or> n = 95 \<or> (97 \<le> n \<and> n \<le> 122))"

text \<open>Line terminators, after which \<open>^\<close> matches and before which \<open>$\<close> matches under
  the \<open>m\<close> flag: line feed and carriage return.\<close>

definition isLineTerminator :: "char \<Rightarrow> bool" where
  "isLineTerminator c = (let n = (of_char c :: nat) in n = 10 \<or> n = 13)"

subsection \<open>The editor document\<close>

text \<open>
  The CodeMirror instance \<open>cm\<close> is seen through its lines of text. \<open>cm.lineInfo(n)\<close>
  returns \<open>null\<close> for a line number outside the document, so that reading \<open>.text\<close> of
  it throws a \<open>TypeError\<close>; \<open>lineInfo\<close> below is the \<open>text\<close> of the line information,
  \<open>None\<close> where CodeMirror returns \<open>null\<close>.
\<close>

type_synonym codemirror = "string list"

definition lineInfo :: "codemirror \<Rightarrow> int \<Rightarrow> string option" where
  "lineInfo cm nLine =
     (if 0 \<le> nLine \<and> nLine < int (length cm) then Some (cm ! nat nLine) else None)"

text \<open>
  \<open>getIndLevel\<close> and \<open>isEmpty\<close> are called by the helpers but defined elsewhere; they
  are parameters of the model. Indentation levels are integers.
\<close>

record yaml_helpers =
  getIndLevel :: "codemirror \<Rightarrow> int \<Rightarrow> int"
  isEmpty :: "codemirror \<Rightarrow> int \<Rightarrow> bool"

subsection \<open>\<open>getLineTag\<close>\<close>

text \<open>
  The regular expression \<open>/^\s*(\w+):/gm\<close>, created afresh at every call (so that
  \<open>lastIndex\<close> is 0). \<open>tag_at\<close> matches it at one position: the white space and the
  word are both taken greedily, and no shorter choice can succeed because a blank is
  no word character and a word character is no colon. \<open>regex_exec\<close> is \<open>exec\<close>: the
  leftmost position at which \<open>^\<close> holds and the rest matches; its result is the first
  capture group, \<open>tags[1]\<close>.
\<close>

definition tag_at :: "string \<Rightarrow> string option" where
  "tag_at s =
     (let r = dropWhile isSpace s; w = takeWhile isWord r in
      (case dropWhile isWord r of
         [] \<Rightarrow> None
       | c # _ \<Rightarrow> if w \<noteq> [] \<and> c = CHR '':'' then Some w else None))"

fun regex_exec :: "bool \<Rightarrow> string \<Rightarrow> string option" where
  "regex_exec bol [] = None"
| "regex_exec bol (c # cs) =
     (case (if bol then tag_at (c # cs) else None) of
        Some w \<Rightarrow> Some w
      | None \<Rightarrow> regex_exec (isLineTerminator c) cs)"

record tag =
  line :: int
  name :: string

text \<open>\<open>getLineTag\<close> returns \<open>undefined\<close> (here \<open>Inr None\<close>) once \<open>nLine\<close> is negative.\<close>

function getLineTag :: "codemirror \<Rightarrow> int \<Rightarrow> js_error + tag option" where
  "getLineTag cm nLine =
     (if nLine \<ge> 0 then
        (case lineInfo cm nLine of
           None \<Rightarrow> Inl TypeError
         | Some text \<Rightarrow>
             (case regex_exec True text of
                Some tags1 \<Rightarrow> Inr (Some \<lparr>line = nLine, name = tags1\<rparr>)
              | None \<Rightarrow> getLineTag cm (nLine - 1)))
      else Inr None)"
  by pat_completeness auto
termination
  by (relation "measure (\<lambda>(cm, nLine). nat (nLine + 1))") auto

declare getLineTag.simps [simp del]

subsection \<open>\<open>getParentLine\<close>\<close>

function getParentLine_loop :: "yaml_helpers \<Rightarrow> codemirror \<Rightarrow> int \<Rightarrow> int \<Rightarrow> int \<Rightarrow> int" where
  "getParentLine_loop h cm nLine level i =
     (if i \<ge> 0 then
        (if \<not> isEmpty h cm i \<and> getIndLevel h cm i = level - 1 then i
         else getParentLine_loop h cm nLine level (i - 1))
      else nLine)"
  by pat_completeness auto
termination
  by (relation "measure (\<lambda>(h, cm, nLine, level, i). nat (i + 1))") auto

declare getParentLine_loop.simps [simp del]

definition getParentLine :: "yaml_helpers \<Rightarrow> codemirror \<Rightarrow> int \<Rightarrow> int" where
  "getParentLine h cm nLine =
     (let level = getIndLevel h cm nLine in getParentLine_loop h cm nLine level (nLine - 1))"

subsection \<open>\<open>getInverseTags\<close> and \<open>getTags\<close>\<close>

text \<open>
  The \<open>while (level > 0)\<close> loop. Reading \<open>tag.name\<close> of the \<open>undefined\<close> that
  \<open>getLineTag\<close> returns throws a \<open>TypeError\<close>. The loop has no bound of its own:
  \<open>None\<close> is the run that never leaves it.
\<close>

partial_function (option) getInverseTags_loop ::
  "yaml_helpers \<Rightarrow> codemirror \<Rightarrow> string list \<Rightarrow> int \<Rightarrow> int \<Rightarrow> (js_error + string list) option" where
  "getInverseTags_loop h cm tags l level =
     (if level > 0 then
        (case getLineTag cm l of
           Inl e \<Rightarrow> Some (Inl e)
         | Inr None \<Rightarrow> Some (Inl TypeError)
         | Inr (Some tag) \<Rightarrow>
             (if name tag \<noteq> [] then
                getInverseTags_loop h cm (tags @ [name tag])
                  (getParentLine h cm (line tag)) (getIndLevel h cm (line tag))
              else Some (Inr tags)))
      else Some (Inr tags))"

definition getInverseTags ::
  "yaml_helpers \<Rightarrow> codemirror \<Rightarrow> int \<Rightarrow> (js_error + string list) option" where
  "getInverseTags h cm nLine = getInverseTags_loop h cm [] nLine 1"

text \<open>The \<open>for\<close> loop of \<open>getTags\<close>, from \<open>invTags.length - 1\<close> down to 0; the index
  stays inside \<open>invTags\<close>.\<close>

function getTags_loop :: "string list \<Rightarrow> int \<Rightarrow> string list \<Rightarrow> string list" where
  "getTags_loop invTags i tags =
     (if i \<ge> 0 then getTags_loop invTags (i - 1) (tags @ [invTags ! nat i]) else tags)"
  by pat_completeness auto
termination
  by (relation "measure (\<lambda>(invTags, i, tags). nat (i + 1))") auto

declare getTags_loop.simps [simp del]

definition getTags ::
  "yaml_helpers \<Rightarrow> codemirror \<Rightarrow> int \<Rightarrow> (js_error + string list) option" where
  "getTags h cm nLine =
     (case getInverseTags h cm nLine of
        None \<Rightarrow> None
      | Some (Inl e) \<Rightarrow> Some (Inl e)
      | Some (Inr invTags) \<Rightarrow> Some (Inr (getTags_loop invTags (int (length invTags) - 1) [])))"

subsection \<open>\<open>tagsToAddress\<close>\<close>

function tagsToAddress_loop :: "string list \<Rightarrow> int \<Rightarrow> string \<Rightarrow> string" where
  "tagsToAddress_loop tags i address =
     (if i < int (length tags)
      then tagsToAddress_loop tags (i + 1) (address @ ''/'' @ tags ! nat i)
      else address)"
  by pat_completeness auto
termination
  by (relation "measure (\<lambda>(tags, i, address). nat (int (length tags) - i))") auto

declare tagsToAddress_loop.simps [simp del]

definition tagsToAddress :: "string list \<Rightarrow> string" where
  "tagsToAddress tags = tagsToAddress_loop tags 0 []"

subsection \<open>JavaScript values and \<open>getYAMLContent\<close>\<close>

text \<open>
  The scene configuration is the data a YAML file parses to: \<open>null\<close>, booleans,
  numbers (integers here), strings, arrays and objects, and \<open>undefined\<close> for what is
  not there. A property read \<open>v[k]\<close> that finds no own property of \<open>v\<close> goes on along
  the prototype chain of \<open>v\<close> (every object has \<open>constructor\<close> and \<open>toString\<close> from
  \<open>Object.prototype\<close>, for one), and there it finds functions and objects of the
  engine, which are no data of the file: they are the values \<open>Builtin\<close>, known by a
  name only, and always truthy.
\<close>

datatype jsval =
    Undefined
  | Null
  | Bool bool
  | Num int
  | Str string
  | Arr "jsval list"
  | Obj "(string \<times> jsval) list"
  | Builtin string

fun truthy :: "jsval \<Rightarrow> bool" where
  "truthy Undefined = False"
| "truthy Null = False"
| "truthy (Bool b) = b"
| "truthy (Num n) = (n \<noteq> 0)"
| "truthy (Str s) = (s \<noteq> [])"
| "truthy (Arr xs) = True"
| "truthy (Obj kvs) = True"
| "truthy (Builtin b) = True"

definition isDigit :: "char \<Rightarrow> bool" where
  "isDigit c = (let n = (of_char c :: nat) in 48 \<le> n \<and> n \<le> 57)"

text \<open>A key is an array index when it is the canonical decimal numeral of a number.\<close>

definition arrayIndex :: "string \<Rightarrow> nat option" where
  "arrayIndex k =
     (if k \<noteq> [] \<and> list_all isDigit k \<and> (k = ''0'' \<or> hd k \<noteq> CHR ''0'')
      then Some (foldl (\<lambda>a c. 10 * a + (of_char c - 48)) 0 k) else None)"

text \<open>
  The own properties of the data: the entries of an object, and \<open>length\<close> and the
  indices of a string or an array.
\<close>

fun ownProp :: "jsval \<Rightarrow> string \<Rightarrow> jsval option" where
  "ownProp (Str s) k =
     (if k = ''length'' then Some (Num (int (length s)))
      else (case arrayIndex k of
              Some i \<Rightarrow> if i < length s then Some (Str [s ! i]) else None
            | None \<Rightarrow> None))"
| "ownProp (Arr xs) k =
     (if k = ''length'' then Some (Num (int (length xs)))
      else (case arrayIndex k of
              Some i \<Rightarrow> if i < length xs then Some (xs ! i) else None
            | None \<Rightarrow> None))"
| "ownProp (Obj kvs) k = map_of kvs k"
| "ownProp v k = None"

text \<open>
  What the prototype chain of a value holds is given by the engine, not by the code
  under study, and is a parameter: \<open>inherited v k\<close> is the outcome of the read \<open>v[k]\<close>
  when \<open>v\<close> has no own property \<open>k\<close>, which is \<open>undefined\<close> where the chain has no
  member \<open>k\<close>, a value where it has one, and an error where the member is an accessor
  that throws. For a value of the engine it gives every property.
\<close>

type_synonym prototype_chain = "jsval \<Rightarrow> string \<Rightarrow> js_error + jsval"

text \<open>The property read \<open>v[k]\<close>: it throws a \<open>TypeError\<close> on \<open>undefined\<close> and \<open>null\<close>.\<close>

definition getProp :: "prototype_chain \<Rightarrow> jsval \<Rightarrow> string \<Rightarrow> js_error + jsval" where
  "getProp inherited v k =
     (if v = Undefined \<or> v = Null then Inl TypeError
      else (case ownProp v k of Some x \<Rightarrow> Inr x | None \<Rightarrow> inherited v k))"

text \<open>\<open>tags[i]\<close> used as a property key: an index outside the array reads \<open>undefined\<close>,
  whose key is the string \<open>undefined\<close>.\<close>

definition key_at :: "string list \<Rightarrow> int \<Rightarrow> string" where
  "key_at tags i = (if 0 \<le> i \<and> i < int (length tags) then tags ! nat i else ''undefined'')"

function getYAMLContent_loop ::
  "prototype_chain \<Rightarrow> jsval \<Rightarrow> string list \<Rightarrow> int \<Rightarrow> js_error + jsval" where
  "getYAMLContent_loop inherited tmp tags i =
     (if i < int (length tags) then
        (case getProp inherited tmp (key_at tags i) of
           Inl e \<Rightarrow> Inl e
         | Inr v \<Rightarrow> if truthy v then getYAMLContent_loop inherited v tags (i + 1) else Inr tmp)
      else Inr tmp)"
  by pat_completeness auto
termination
  by (relation "measure (\<lambda>(inherited, tmp, tags, i). nat (int (length tags) - i))") auto

declare getYAMLContent_loop.simps [simp del]

definition getYAMLContent ::
  "prototype_chain \<Rightarrow> jsval \<Rightarrow> string list \<Rightarrow> js_error + jsval" where
  "getYAMLContent inherited sceneConfig tags =
     (case getProp inherited sceneConfig (key_at tags 0) of
        Inl e \<Rightarrow> Inl e
      | Inr tmp \<Rightarrow> getYAMLContent_loop inherited tmp tags 1)"

subsection \<open>\<open>getColorBlockShader\<close>\<close>

text \<open>\<open>address.indexOf(pat)\<close>: the first index at which \<open>pat\<close> occurs, or \<open>-1\<close>.\<close>

fun indexOf_from :: "string \<Rightarrow> string \<Rightarrow> int \<Rightarrow> int" where
  "indexOf_from [] pat k = (if pat = [] then k else - 1)"
| "indexOf_from (c # cs) pat k =
     (if take (length pat) (c # cs) = pat then k else indexOf_from cs pat (k + 1))"

definition indexOf :: "string \<Rightarrow> string \<Rightarrow> int" where
  "indexOf s pat = indexOf_from s pat 0"

text \<open>
  The global \<open>scene\<close> is the scene object of the map. The function reads
  \<open>scene.styles[styleName]\<close> and, of a style that is truthy, \<open>style["shaders"]\<close>; all
  three are property reads. The empty object \<open>{}\<close> is \<open>Obj []\<close>.
\<close>

definition getColorBlockShader ::
  "yaml_helpers \<Rightarrow> prototype_chain \<Rightarrow> jsval \<Rightarrow> codemirror \<Rightarrow> int \<Rightarrow>
   (js_error + jsval) option" where
  "getColorBlockShader h inherited scene cm nLine =
     (case getInverseTags h cm nLine of
        None \<Rightarrow> None
      | Some (Inl e) \<Rightarrow> Some (Inl e)
      | Some (Inr invTags) \<Rightarrow>
          (let address = tagsToAddress invTags in
           if indexOf address ''/color/blocks/shaders/'' = 0 then
             (let styleName = key_at invTags 3 in
              (case getProp inherited scene ''styles'' of
                 Inl e \<Rightarrow> Some (Inl e)
               | Inr styles \<Rightarrow>
                   (case getProp inherited styles styleName of
                      Inl e \<Rightarrow> Some (Inl e)
                    | Inr style \<Rightarrow>
                        if truthy style then Some (getProp inherited style ''shaders'')
                        else Some (Inr (Obj [])))))
           else Some (Inr (Obj []))))"

subsection \<open>\<open>determineScene\<close> and \<open>load\<close>\<close>

text \<open>
  A scene handed to \<open>load\<close>, or kept in local storage, is an object with optional
  properties; \<open>None\<close> is a property that is not there. A string property is truthy when
  it is there and not empty.
\<close>

record scene_data =
  url :: "string option"
  contents :: "string option"
  filename :: "string option"
  original_url :: "string option"
  original_base_path :: "string option"

definition truthy_string :: "string option \<Rightarrow> bool" where
  "truthy_string p = (case p of None \<Rightarrow> False | Some s \<Rightarrow> s \<noteq> [])"

definition url_scene :: "string \<Rightarrow> scene_data" where
  "url_scene u = \<lparr>url = Some u, contents = None, filename = None, original_url = None,
     original_base_path = None\<rparr>"

definition DEFAULT_SCENE :: string where
  "DEFAULT_SCENE = ''data/scenes/default.yaml''"

text \<open>\<open>String.prototype.trim\<close> removes white space and line terminators at both ends.\<close>

definition trim :: "string \<Rightarrow> string" where
  "trim s = rev (dropWhile isSpace (rev (dropWhile isSpace s)))"

text \<open>
  \<open>getQueryStringObject\<close> is imported from a module that is not modelled: its result,
  the parsed query string, is a parameter, and so is the value that
  \<open>localforage.getItem\<close> resolves with (\<open>None\<close> for \<open>null\<close>). \<open>determineScene\<close> below is
  the value its promise resolves with.
\<close>

record query_string =
  scene :: "string option"
  lines :: "string option"

definition determineScene :: "query_string \<Rightarrow> scene_data option \<Rightarrow> scene_data" where
  "determineScene query stored =
     (if truthy_string (scene query) then
        (case scene query of Some s \<Rightarrow> url_scene s | None \<Rightarrow> url_scene [])
      else
        (case stored of
           None \<Rightarrow> url_scene DEFAULT_SCENE
         | Some sceneData \<Rightarrow>
             (case contents sceneData of
                None \<Rightarrow> url_scene DEFAULT_SCENE
              | Some c \<Rightarrow>
                  if c \<noteq> [] \<and> length (trim c) > 0 then sceneData
                  else url_scene DEFAULT_SCENE)))"

text \<open>
  \<open>load\<close> calls functions of other modules and of the browser. Their results are
  parameters: a promise is given by the way it settles, \<open>Inl\<close> for a rejection.
  \<open>doLoadProcess\<close> only drives the map, the store and the history; \<open>load_env\<close> says
  whether it throws (the outer sum) and how the promise it returns settles (the inner
  one). What \<open>load\<close> does to the outside is the list of events it leaves behind.
\<close>

record response =
  ok :: bool
  status :: int
  response_text :: string

record load_env =
  prependProtocolToUrl :: "string \<Rightarrow> string"
  isGistURL :: "string \<Rightarrow> bool"
  getSceneURLFromGistAPI :: "string \<Rightarrow> js_error + string"
  fetch :: "string \<Rightarrow> js_error + response"
  doLoadProcess :: "scene_data \<Rightarrow> js_error + (js_error + unit)"

datatype event =
    Dispatch string
  | ShowSceneLoadingIndicator
  | DoLoadProcess scene_data
  | OnLoadError js_error

text \<open>\<open>load\<close> either throws or returns a promise, given by the way it settles.\<close>

datatype load_outcome = Throws js_error | Returns "js_error + unit"

text \<open>\<open>str.split('/')\<close>: the pieces between the separators, at least one.\<close>

fun split_on :: "char \<Rightarrow> string \<Rightarrow> string list" where
  "split_on sep [] = [[]]"
| "split_on sep (c # cs) =
     (if c = sep then [] # split_on sep cs
      else (case split_on sep cs of
              [] \<Rightarrow> [[c]]
            | p # ps \<Rightarrow> (c # p) # ps))"

text \<open>The URL that is fetched in the end (the Gist API may replace it) together with
  \<open>fetchPromise\<close>.\<close>

definition fetchPromise :: "load_env \<Rightarrow> string \<Rightarrow> string \<times> (js_error + response)" where
  "fetchPromise env sceneUrl =
     (if isGistURL env sceneUrl then
        (case getSceneURLFromGistAPI env sceneUrl of
           Inl e \<Rightarrow> (sceneUrl, Inl e)
         | Inr u \<Rightarrow> (u, fetch env u))
      else (sceneUrl, fetch env sceneUrl))"

text \<open>The first \<open>then\<close>: a response that is not \<open>ok\<close> throws, otherwise its text.\<close>

definition checkResponse :: "response \<Rightarrow> js_error + string" where
  "checkResponse r =
     (if \<not> ok r then
        (if status r = 404 then Inl (Error ''The scene you requested could not be found.'')
         else Inl (Error ''Something went wrong loading the scene!''))
      else Inr (response_text r))"

definition load :: "load_env \<Rightarrow> scene_data \<Rightarrow> event list \<times> load_outcome" where
  "load env scn =
     (let started = [Dispatch ''tangram:clear-palette'', ShowSceneLoadingIndicator] in
      if truthy_string (url scn) then
        (let sceneUrl0 = prependProtocolToUrl env (case url scn of Some u \<Rightarrow> u | None \<Rightarrow> []);
             filename = last (split_on CHR ''/'' sceneUrl0);
             (sceneUrl, fetched) = fetchPromise env sceneUrl0;
             checked = (case fetched of Inl e \<Rightarrow> Inl e | Inr r \<Rightarrow> checkResponse r)
         in
         (case checked of
            Inl e \<Rightarrow> (started @ [OnLoadError e], Returns (Inr ()))
          | Inr c \<Rightarrow>
              (let loaded = \<lparr>url = Some sceneUrl, contents = Some c, filename = Some filename,
                     original_url = None, original_base_path = None\<rparr>
               in
               (case doLoadProcess env loaded of
                  Inl e \<Rightarrow> (started @ [DoLoadProcess loaded, OnLoadError e], Returns (Inr ()))
                | Inr (Inl e) \<Rightarrow>
                    (started @ [DoLoadProcess loaded, OnLoadError e], Returns (Inr ()))
                | Inr (Inr _) \<Rightarrow> (started @ [DoLoadProcess loaded], Returns (Inr ()))))))
      else if truthy_string (contents scn) then
        (started @ [DoLoadProcess scn],
         Returns (case doLoadProcess env scn of Inl e \<Rightarrow> Inl e | Inr _ \<Rightarrow> Inr ()))
      else (started, Throws (Error ''no scene url or contents provided'')))"

text \<open>The errors handed to \<open>onLoadError\<close>, in order.\<close>

fun handled_errors :: "event list \<Rightarrow> js_error list" where
  "handled_errors [] = []"
| "handled_errors (OnLoadError e # evs) = e # handled_errors evs"
| "handled_errors (_ # evs) = handled_errors evs"

subsection \<open>Specifications to compare with\<close>

text \<open>
  One choice of the two helpers that are parameters, to run the functions on concrete
  documents: the level of a line is the number of its leading blanks divided by four,
  and a line is empty when it holds white space only.
\<close>

definition sample_helpers :: yaml_helpers where
  "sample_helpers =
     \<lparr>getIndLevel = (\<lambda>cm n. int (length (takeWhile isSpace (cm ! nat n)) div 4)),
      isEmpty = (\<lambda>cm n. list_all isSpace (cm ! nat n))\<rparr>"

text \<open>
  A candidate for the parent of line \<open>nLine\<close>: a line above it that is not empty and
  whose level is one less.
\<close>

definition parent_candidate :: "yaml_helpers \<Rightarrow> codemirror \<Rightarrow> int \<Rightarrow> int \<Rightarrow> bool" where
  "parent_candidate h cm nLine i =
     (0 \<le> i \<and> i < nLine \<and> \<not> isEmpty h cm i \<and> getIndLevel h cm i = getIndLevel h cm nLine - 1)"

text \<open>
  The key path of a line, innermost key first: the nearest key at or above the line,
  followed, while that key is indented, by the key path of its parent line.
\<close>

inductive key_path :: "yaml_helpers \<Rightarrow> codemirror \<Rightarrow> int \<Rightarrow> string list \<Rightarrow> bool" where
  outermost:
    "getLineTag cm l = Inr (Some t) \<Longrightarrow> getIndLevel h cm (line t) \<le> 0 \<Longrightarrow>
     key_path h cm l [name t]"
| nested:
    "getLineTag cm l = Inr (Some t) \<Longrightarrow> getIndLevel h cm (line t) > 0 \<Longrightarrow>
     key_path h cm (getParentLine h cm (line t)) ts \<Longrightarrow>
     key_path h cm l (name t # ts)"

text \<open>A small document, to run the functions on.\<close>

definition sample_document :: codemirror where
  "sample_document =
     [''scene:'', ''    color:'', [], ''        blocks: 1'', ''        other: 2'']"

text \<open>
  A document with a shader block, and a scene whose style \<open>water\<close> has shaders.
\<close>

definition shader_document :: codemirror where
  "shader_document =
     [''styles:'',
      ''    water:'',
      ''        shaders:'',
      ''            blocks:'',
      ''                color: |'',
      ''                    color.rgb = vec3(1.0);'']"

definition shader_scene :: jsval where
  "shader_scene =
     Obj [(''styles'',
       Obj [(''water'',
         Obj [(''shaders'',
           Obj [(''blocks'', Obj [(''color'', Str ''color.rgb = vec3(1.0);'')])])])])]"

text \<open>
  A scene configuration with a data source and a \<open>cameras\<close> key that has no value,
  which YAML reads as \<open>null\<close>; and an environment for \<open>load\<close> in which every fetch is
  answered, one address with status 404 and the others with 500.
\<close>

definition sample_config :: jsval where
  "sample_config =
     Obj [(''sources'', Obj [(''osm'', Obj [(''type'', Str ''TopoJSON'')])]),
          (''cameras'', Null)]"

definition sample_env :: load_env where
  "sample_env =
     \<lparr>prependProtocolToUrl = (\<lambda>u. u),
      isGistURL = (\<lambda>u. False),
      getSceneURLFromGistAPI = (\<lambda>u. Inr u),
      fetch = (\<lambda>u. if u = ''https://example.com/missing.yaml''
                    then Inr \<lparr>ok = False, status = 404, response_text = []\<rparr>
                    else Inr \<lparr>ok = False, status = 500, response_text = []\<rparr>),
      doLoadProcess = (\<lambda>s. Inr (Inr ()))\<rparr>"

text \<open>Scene data as the editor stores it when the page is left.\<close>

definition stored_scene :: scene_data where
  "stored_scene =
     \<lparr>url = None, contents = Some ''cameras: {}'', filename = None,
      original_url = Some ''data/scenes/default.yaml'',
      original_base_path = Some ''data/scenes/''\<rparr>"
subsection \<open>\<open>updateContent\<close>\<close>

text \<open>
  \<open>cm.getValue()\<close> is the text of the document, its lines joined by line feeds.
\<close>

definition tailLines :: "string list \<Rightarrow> string" where
  "tailLines ls = concat (map (\<lambda>l. CHR 0x0A # l) ls)"

definition joinLines :: "string list \<Rightarrow> string" where
  "joinLines ls = (case ls of [] \<Rightarrow> [] | l # ls' \<Rightarrow> l @ tailLines ls')"

definition getValue :: "codemirror \<Rightarrow> string" where
  "getValue cm = joinLines cm"

text \<open>
  The pattern
  \<open>/(^\s+url:\s+([a-z]|[A-Z]|[0-9]|\/|\{|\}|\.|\:)+mapzen.com([a-z]|[A-Z]|[0-9]|\/|\{|\}|\.|\:)+(topojson|geojson|mvt)$)/gm\<close>.
  \<open>isUrlChar\<close> is the class of the two bracketed groups.
\<close>

definition isUrlChar :: "char \<Rightarrow> bool" where
  "isUrlChar c = (let n = (of_char c :: nat) in
     (97 \<le> n \<and> n \<le> 122) \<or> (65 \<le> n \<and> n \<le> 90) \<or> (48 \<le> n \<and> n \<le> 57) \<or>
     c = CHR ''/'' \<or> c = CHR ''{'' \<or> c = CHR ''}'' \<or> c = CHR ''.'' \<or> c = CHR '':'')"

definition tile_formats :: "string list" where
  "tile_formats = [''topojson'', ''geojson'', ''mvt'']"

text \<open>
  The part of the pattern after the second \<open>\s+\<close>, up to \<open>$\<close>, matched against the
  whole of \<open>u\<close>: \<open>endpoint_at u i suf\<close> says that \<open>u\<close> is \<open>i\<close> characters of the class,
  at least one, then \<open>mapzen\<close>, any one character that is no line terminator (the dot
  of the pattern is not escaped), \<open>com\<close>, again characters of the class, at least one,
  and the format \<open>suf\<close>.
\<close>

definition endpoint_at :: "string \<Rightarrow> nat \<Rightarrow> string \<Rightarrow> bool" where
  "endpoint_at u i suf =
     (let a = take i u; r = drop i u; t = drop 10 r; b = take (length t - length suf) t in
      a \<noteq> [] \<and> list_all isUrlChar a \<and> take 6 r = ''mapzen'' \<and>
      6 < length r \<and> \<not> isLineTerminator (r ! 6) \<and> take 3 (drop 7 r) = ''com'' \<and>
      b \<noteq> [] \<and> list_all isUrlChar b \<and> drop (length t - length suf) t = suf)"

definition endpoint :: "string \<Rightarrow> bool" where
  "endpoint u = list_ex (\<lambda>i. list_ex (endpoint_at u i) tile_formats) [0..<length u]"

text \<open>
  A match of the pattern at a position where \<open>^\<close> holds, \<open>s\<close> being the text from that
  position on: the matched text and the text after it. Each \<open>\s+\<close> takes all the
  white space there is, line breaks included, because what follows it in the pattern
  is no white space; the match then runs to the end of the line, where \<open>$\<close> holds,
  because no character of the pattern after the second \<open>\s+\<close> matches a line
  terminator.
\<close>

definition startsWith :: "string \<Rightarrow> string \<Rightarrow> bool" where
  "startsWith s p = (take (length p) s = p)"

definition url_key :: string where
  "url_key = ''url:''"

definition match_pattern :: "string \<Rightarrow> (string \<times> string) option" where
  "match_pattern s =
     (let ws1 = takeWhile isSpace s; r1 = dropWhile isSpace s;
          r2 = drop (length url_key) r1; ws2 = takeWhile isSpace r2; r3 = dropWhile isSpace r2;
          u = takeWhile (\<lambda>c. \<not> isLineTerminator c) r3;
          rest = dropWhile (\<lambda>c. \<not> isLineTerminator c) r3
      in if ws1 \<noteq> [] \<and> startsWith r1 url_key \<and> ws2 \<noteq> [] \<and> endpoint u
         then Some (ws1 @ url_key @ ws2 @ u, rest) else None)"

lemma match_pattern_Some:
  "match_pattern s = Some (m, rest) \<longleftrightarrow>
     takeWhile isSpace s \<noteq> [] \<and> startsWith (dropWhile isSpace s) url_key \<and>
     takeWhile isSpace (drop (length url_key) (dropWhile isSpace s)) \<noteq> [] \<and>
     endpoint (takeWhile (\<lambda>c. \<not> isLineTerminator c)
       (dropWhile isSpace (drop (length url_key) (dropWhile isSpace s)))) \<and>
     m = takeWhile isSpace s @ url_key @
         takeWhile isSpace (drop (length url_key) (dropWhile isSpace s)) @
         takeWhile (\<lambda>c. \<not> isLineTerminator c)
           (dropWhile isSpace (drop (length url_key) (dropWhile isSpace s))) \<and>
     rest = dropWhile (\<lambda>c. \<not> isLineTerminator c)
       (dropWhile isSpace (drop (length url_key) (dropWhile isSpace s)))"
  unfolding match_pattern_def Let_def
  by (cases "takeWhile isSpace s \<noteq> [] \<and> startsWith (dropWhile isSpace s) url_key \<and>
     takeWhile isSpace (drop (length url_key) (dropWhile isSpace s)) \<noteq> [] \<and>
     endpoint (takeWhile (\<lambda>c. \<not> isLineTerminator c)
       (dropWhile isSpace (drop (length url_key) (dropWhile isSpace s))))")
    (simp_all only: if_True if_False option.inject prod.inject option.distinct, auto)

lemma match_pattern_split: "match_pattern s = Some (m, rest) \<Longrightarrow> s = m @ rest \<and> m \<noteq> []"
proof -
  assume a: "match_pattern s = Some (m, rest)"
  define r1 where "r1 = dropWhile isSpace s"
  define r2 where "r2 = drop (length url_key) r1"
  define r3 where "r3 = dropWhile isSpace r2"
  from a [unfolded match_pattern_Some]
  have ws: "takeWhile isSpace s \<noteq> []" and u: "startsWith r1 url_key"
    and m: "m = takeWhile isSpace s @ url_key @ takeWhile isSpace r2 @
          takeWhile (\<lambda>c. \<not> isLineTerminator c) r3"
    and rest: "rest = dropWhile (\<lambda>c. \<not> isLineTerminator c) r3"
    unfolding r1_def r2_def r3_def by blast+
  have "s = takeWhile isSpace s @ r1" by (simp add: r1_def)
  also have "r1 = url_key @ r2"
    using u append_take_drop_id [of "length url_key" r1] unfolding startsWith_def r2_def
    by metis
  also have "r2 = takeWhile isSpace r2 @ r3" by (simp add: r3_def)
  also have "r3 = takeWhile (\<lambda>c. \<not> isLineTerminator c) r3 @ rest" by (simp add: rest)
  finally have split: "s = m @ rest" unfolding m by (simp only: append_assoc)
  have "m \<noteq> []" using ws unfolding m by simp
  with split show ?thesis by (rule conjI)
qed

text \<open>
  \<open>content.replace(pattern, "$1??api_key=vector-tiles-x4i7gmA")\<close> with the \<open>g\<close> flag:
  the text is scanned from the left, \<open>bol\<close> telling whether \<open>^\<close> holds at the position
  reached (the start of the text, or after a line terminator); each match is replaced
  by itself (the group \<open>$1\<close> is the whole match) followed by the key, and the scan goes
  on behind the match.
\<close>

definition api_key :: string where
  "api_key = ''??api_key=vector-tiles-x4i7gmA''"

function replace_from :: "bool \<Rightarrow> string \<Rightarrow> string" where
  "replace_from bol [] = []"
| "replace_from bol (c # cs) =
     (case (if bol then match_pattern (c # cs) else None) of
        Some (m, rest) \<Rightarrow> m @ api_key @ replace_from (isLineTerminator (last m)) rest
      | None \<Rightarrow> c # replace_from (isLineTerminator c) cs)"
  by pat_completeness auto
termination replace_from
proof (relation "measure (\<lambda>(bol, s). length s)")
  fix bol c cs x m rest
  assume "(if bol then match_pattern (c # cs) else None) = Some x" "(m, rest) = x"
  then have "match_pattern (c # cs) = Some (m, rest)" by (simp split: if_splits)
  from match_pattern_split [OF this] have "length (c # cs) = length m + length rest" "m \<noteq> []"
    by (metis length_append)+
  then show "((isLineTerminator (last m), rest), (bol, c # cs)) \<in> measure (\<lambda>(bol, s). length s)"
    by (cases m) auto
qed auto

declare replace_from.simps [simp del]

text \<open>
  The body of \<open>updateContent\<close> (the function is debounced; when it runs is not
  modelled): the text handed to \<open>scene.reload\<close> through an object URL, or \<open>None\<close> when
  there is no scene.
\<close>

definition updateContent :: "codemirror \<Rightarrow> bool \<Rightarrow> string option" where
  "updateContent cm scene_loaded =
     (let content = replace_from True (getValue cm) in
      if scene_loaded then Some content else None)"

text \<open>
  Matches seen on the lines of the document. A line is blank when it holds white space
  only. A match that begins at the start of the first line of \<open>L\<close> runs over the blank
  lines there, then over a line with the \<open>url:\<close> key (indented, unless a blank line
  came before), and ends either on that line, when the endpoint follows the key, or,
  when nothing follows the key on its line, on the next line that is not blank, when
  that line is an endpoint. \<open>match_lines L\<close> is the list of the lines after the match.
\<close>

definition blank :: "string \<Rightarrow> bool" where
  "blank l = list_all isSpace l"

definition match_lines :: "string list \<Rightarrow> string list option" where
  "match_lines L =
     (case dropWhile blank L of
        [] \<Rightarrow> None
      | m # after \<Rightarrow>
          (let r1 = dropWhile isSpace m; r2 = drop (length url_key) r1 in
           if (takeWhile blank L = [] \<and> takeWhile isSpace m = []) \<or> \<not> startsWith r1 url_key
           then None
           else if \<not> blank r2 then
             (if takeWhile isSpace r2 \<noteq> [] \<and> endpoint (dropWhile isSpace r2)
              then Some after else None)
           else
             (case dropWhile blank after of
                [] \<Rightarrow> None
              | e # after' \<Rightarrow> if endpoint (dropWhile isSpace e) then Some after' else None)))"

lemma match_lines_shorter: "match_lines L = Some R \<Longrightarrow> length R < length L"
proof -
  assume a: "match_lines L = Some R"
  have d: "length (dropWhile blank xs) \<le> length xs" for xs :: "string list"
    by (rule length_dropWhile_le)
  from a obtain m after where m: "dropWhile blank L = m # after"
    by (auto simp: match_lines_def split: list.splits)
  from d [of L] m have 1: "length after < length L" by simp
  from a m have "R = after \<or> (\<exists>e. dropWhile blank after = e # R)"
    by (auto simp: match_lines_def Let_def split: list.splits if_splits)
  then show ?thesis
  proof
    assume "R = after"
    with 1 show ?thesis by simp
  next
    assume "\<exists>e. dropWhile blank after = e # R"
    then obtain e where "dropWhile blank after = e # R" ..
    with d [of after] have "length R < length after" by simp
    with 1 show ?thesis by simp
  qed
qed

text \<open>
  The document rewritten line by line: the key is appended to the line on which a match
  ends, and the lines are scanned on from the line after it.
\<close>

function rewrite_lines :: "string list \<Rightarrow> string list" where
  "rewrite_lines [] = []"
| "rewrite_lines (l # ls) =
     (case match_lines (l # ls) of
        Some R \<Rightarrow>
          (let n = length (l # ls) - length R in
           take (n - 1) (l # ls) @ [(l # ls) ! (n - 1) @ api_key] @ rewrite_lines R)
      | None \<Rightarrow> l # rewrite_lines ls)"
  by pat_completeness auto
termination rewrite_lines
proof (relation "measure length")
  fix l ls R
  assume "match_lines (l # ls) = Some R"
  from match_lines_shorter [OF this] show "(R, l # ls) \<in> measure length" by simp
qed auto

declare rewrite_lines.simps [simp del]

text \<open>CodeMirror splits its text at the line breaks: a line holds no line terminator.\<close>

definition clean_lines :: "string list \<Rightarrow> bool" where
  "clean_lines L = (\<forall>l\<in>set L. \<forall>c\<in>set l. \<not> isLineTerminator c)"

subsection \<open>The \<open>changes\<close> handler and \<open>fixKeyLines\<close>\<close>


record key_pair =
  pos_line :: int
  pos_ch :: int













section \<open>Properties\<close>

subsection \<open>\<open>tagsToAddress\<close>\<close>

lemma tagsToAddress_loop_eq:
  "0 \<le> i \<Longrightarrow>
   tagsToAddress_loop tags i address =
     address @ concat (map (\<lambda>t. ''/'' @ t) (drop (nat i) tags))"
proof (induction tags i address rule: tagsToAddress_loop.induct)
  case (1 tags i address)
  show ?case
  proof (cases "i < int (length tags)")
    case True
    then have n: "nat i < length tags" using 1(2) by simp
    have d: "drop (nat i) tags = tags ! nat i # drop (nat (i + 1)) tags"
      using n 1(2) by (simp add: Cons_nth_drop_Suc nat_add_distrib)
    have "tagsToAddress_loop tags i address =
        tagsToAddress_loop tags (i + 1) (address @ ''/'' @ tags ! nat i)"
      using True by (subst tagsToAddress_loop.simps) simp
    also have "\<dots> = (address @ ''/'' @ tags ! nat i) @
        concat (map (\<lambda>t. ''/'' @ t) (drop (nat (i + 1)) tags))"
      using True 1 by simp
    finally show ?thesis by (simp add: d)
  next
    case False
    then show ?thesis using 1(2) by (subst tagsToAddress_loop.simps) simp
  qed
qed

lemma tagsToAddress_concat: "tagsToAddress tags = concat (map (\<lambda>t. ''/'' @ t) tags)"
  by (simp add: tagsToAddress_def tagsToAddress_loop_eq)

text \<open>
  C6: \<open>tagsToAddress\<close> prefixes every tag with a slash and concatenates the results in
  the order of the list; the empty list gives the empty string, and the address of a
  list that is not empty begins with a slash.
\<close>

theorem tagsToAddress_folder_style:
  "tagsToAddress tags = concat (map (\<lambda>t. ''/'' @ t) tags) \<and>
   tagsToAddress [] = [] \<and>
   (tags \<noteq> [] \<longrightarrow> hd (tagsToAddress tags) = CHR ''/'')"
  by (cases tags) (simp_all add: tagsToAddress_concat)

theorem tagsToAddress_folder_style_witness:
  "[''color'', ''blocks''] \<noteq> [] \<and>
   tagsToAddress [''color'', ''blocks''] = ''/color/blocks'' \<and>
   hd (tagsToAddress [''color'', ''blocks'']) = CHR ''/''"
  using tagsToAddress_folder_style [of "[''color'', ''blocks'']"] by simp

subsection \<open>\<open>getParentLine\<close>\<close>

lemma getParentLine_loop_found:
  "getParentLine_loop h cm nLine level i = r \<Longrightarrow>
   r \<noteq> nLine \<or> (\<exists>j. 0 \<le> j \<and> j \<le> i \<and> \<not> isEmpty h cm j \<and> getIndLevel h cm j = level - 1) \<Longrightarrow>
   i < nLine \<Longrightarrow>
   0 \<le> r \<and> r \<le> i \<and> \<not> isEmpty h cm r \<and> getIndLevel h cm r = level - 1 \<and>
   (\<forall>j. r < j \<and> j \<le> i \<longrightarrow> isEmpty h cm j \<or> getIndLevel h cm j \<noteq> level - 1)"
proof (induction h cm nLine level i arbitrary: r rule: getParentLine_loop.induct)
  case (1 h cm nLine level i)
  show ?case
  proof (cases "i \<ge> 0")
    case False
    then have "getParentLine_loop h cm nLine level i = nLine"
      by (subst getParentLine_loop.simps) simp
    with 1(2,3) False show ?thesis by auto
  next
    case True
    show ?thesis
    proof (cases "\<not> isEmpty h cm i \<and> getIndLevel h cm i = level - 1")
      case hit: True
      then have "getParentLine_loop h cm nLine level i = i"
        using True by (subst getParentLine_loop.simps) simp
      with 1(2) hit True show ?thesis by auto
    next
      case miss: False
      then have e: "getParentLine_loop h cm nLine level i =
          getParentLine_loop h cm nLine level (i - 1)"
        using True by (subst getParentLine_loop.simps) auto
      have ex: "r \<noteq> nLine \<or>
          (\<exists>j. 0 \<le> j \<and> j \<le> i - 1 \<and> \<not> isEmpty h cm j \<and> getIndLevel h cm j = level - 1)"
      proof (cases "r = nLine")
        case True
        with 1(3) obtain j where j: "0 \<le> j" "j \<le> i" "\<not> isEmpty h cm j"
          "getIndLevel h cm j = level - 1" by auto
        with miss have "j \<noteq> i" by auto
        with j show ?thesis by (intro disjI2 exI[of _ j]) auto
      qed simp
      have ih: "0 \<le> r \<and> r \<le> i - 1 \<and> \<not> isEmpty h cm r \<and> getIndLevel h cm r = level - 1 \<and>
          (\<forall>j. r < j \<and> j \<le> i - 1 \<longrightarrow> isEmpty h cm j \<or> getIndLevel h cm j \<noteq> level - 1)"
        using 1(1)[OF True miss _ ex] 1(2) 1(4) e by simp
      show ?thesis
      proof (intro conjI allI impI)
        fix j assume "r < j \<and> j \<le> i"
        then show "isEmpty h cm j \<or> getIndLevel h cm j \<noteq> level - 1"
          using ih miss by (cases "j = i") auto
      qed (use ih in auto)
    qed
  qed
qed

lemma getParentLine_loop_none:
  "\<forall>j. 0 \<le> j \<and> j \<le> i \<longrightarrow> isEmpty h cm j \<or> getIndLevel h cm j \<noteq> level - 1 \<Longrightarrow>
   getParentLine_loop h cm nLine level i = nLine"
proof (induction h cm nLine level i rule: getParentLine_loop.induct)
  case (1 h cm nLine level i)
  show ?case
  proof (cases "i \<ge> 0")
    case False
    then show ?thesis by (subst getParentLine_loop.simps) simp
  next
    case True
    with 1(2) have miss: "\<not> (\<not> isEmpty h cm i \<and> getIndLevel h cm i = level - 1)" by auto
    have "getParentLine_loop h cm nLine level i = getParentLine_loop h cm nLine level (i - 1)"
      using True miss by (subst getParentLine_loop.simps) auto
    also have "\<dots> = nLine" using 1(1)[OF True miss] 1(2) by auto
    finally show ?thesis .
  qed
qed

text \<open>
  C4: for a line \<open>nLine\<close> of level \<open>L\<close>, \<open>getParentLine\<close> returns the largest line
  number below \<open>nLine\<close> whose line is not empty and has level \<open>L - 1\<close>; when there is
  no such line it returns \<open>nLine\<close> itself.
\<close>

theorem getParentLine_nearest_candidate:
  "(if \<exists>i. parent_candidate h cm nLine i
    then parent_candidate h cm nLine (getParentLine h cm nLine) \<and>
         (\<forall>j. parent_candidate h cm nLine j \<longrightarrow> j \<le> getParentLine h cm nLine)
    else getParentLine h cm nLine = nLine)"
proof (cases "\<exists>i. parent_candidate h cm nLine i")
  case True
  then obtain i where i: "parent_candidate h cm nLine i" ..
  define r where "r = getParentLine h cm nLine"
  define L where "L = getIndLevel h cm nLine"
  have r: "getParentLine_loop h cm nLine L (nLine - 1) = r"
    by (simp add: r_def L_def getParentLine_def)
  have found: "0 \<le> r \<and> r \<le> nLine - 1 \<and> \<not> isEmpty h cm r \<and> getIndLevel h cm r = L - 1 \<and>
      (\<forall>j. r < j \<and> j \<le> nLine - 1 \<longrightarrow> isEmpty h cm j \<or> getIndLevel h cm j \<noteq> L - 1)"
  proof (rule getParentLine_loop_found [OF r])
    show "r \<noteq> nLine \<or>
        (\<exists>j. 0 \<le> j \<and> j \<le> nLine - 1 \<and> \<not> isEmpty h cm j \<and> getIndLevel h cm j = L - 1)"
      using i by (intro disjI2 exI[of _ i]) (simp add: parent_candidate_def L_def)
  qed simp
  then have c: "parent_candidate h cm nLine r"
    by (simp add: parent_candidate_def L_def)
  have "j \<le> r" if j: "parent_candidate h cm nLine j" for j
  proof (rule ccontr)
    assume "\<not> j \<le> r"
    then have "r < j \<and> j \<le> nLine - 1" using j by (simp add: parent_candidate_def)
    with found have "isEmpty h cm j \<or> getIndLevel h cm j \<noteq> L - 1" by blast
    with j show False by (simp add: parent_candidate_def L_def)
  qed
  with c True show ?thesis by (simp add: r_def)
next
  case False
  then have "\<forall>j. 0 \<le> j \<and> j \<le> nLine - 1 \<longrightarrow>
      isEmpty h cm j \<or> getIndLevel h cm j \<noteq> getIndLevel h cm nLine - 1"
    by (auto simp: parent_candidate_def)
  then have "getParentLine h cm nLine = nLine"
    by (simp add: getParentLine_def getParentLine_loop_none)
  with False show ?thesis by simp
qed

theorem getParentLine_nearest_candidate_witness:
  "parent_candidate sample_helpers sample_document 4 1 \<and>
   parent_candidate sample_helpers sample_document 4
     (getParentLine sample_helpers sample_document 4) \<and>
   1 \<le> getParentLine sample_helpers sample_document 4 \<and>
   \<not> (\<exists>i. parent_candidate sample_helpers sample_document 0 i) \<and>
   getParentLine sample_helpers sample_document 0 = 0"
proof -
  have c: "parent_candidate sample_helpers sample_document 4 1"
    by (simp add: sample_document_def parent_candidate_def sample_helpers_def isSpace_def)
  then have ex: "\<exists>i. parent_candidate sample_helpers sample_document 4 i" ..
  have none: "\<not> (\<exists>i. parent_candidate sample_helpers sample_document 0 i)"
    by (simp add: parent_candidate_def)
  from getParentLine_nearest_candidate [of sample_helpers sample_document 4] ex c
    getParentLine_nearest_candidate [of sample_helpers sample_document 0] none
  show ?thesis by simp
qed

subsection \<open>\<open>getTags\<close> and \<open>getInverseTags\<close>\<close>

lemma getTags_loop_rev:
  "k \<le> length invTags \<Longrightarrow> getTags_loop invTags (int k - 1) acc = acc @ rev (take k invTags)"
proof (induction k arbitrary: acc)
  case 0
  show ?case by (subst getTags_loop.simps) simp
next
  case (Suc k)
  have "getTags_loop invTags (int (Suc k) - 1) acc =
      getTags_loop invTags (int k - 1) (acc @ [invTags ! k])"
    by (subst getTags_loop.simps) simp
  also have "\<dots> = (acc @ [invTags ! k]) @ rev (take k invTags)"
    using Suc by simp
  finally show ?case using Suc.prems by (simp add: take_Suc_conv_app_nth)
qed

lemma getTags_rev:
  "getTags h cm nLine = map_option (map_sum id rev) (getInverseTags h cm nLine)"
  using getTags_loop_rev [of "length xs" xs "[]" for xs]
  by (auto simp: getTags_def split: option.splits sum.splits)

lemma tag_at_word: "tag_at s = Some w \<Longrightarrow> w \<noteq> [] \<and> list_all isWord w"
  by (auto simp: tag_at_def Let_def list_all_iff split: list.splits if_splits dest: set_takeWhileD)

lemma regex_exec_word: "regex_exec bol s = Some w \<Longrightarrow> w \<noteq> [] \<and> list_all isWord w"
proof (induction s arbitrary: bol)
  case Nil
  then show ?case by simp
next
  case (Cons c cs)
  show ?case
  proof (cases "if bol then tag_at (c # cs) else None")
    case None
    with Cons.prems have "regex_exec (isLineTerminator c) cs = Some w" by simp
    then show ?thesis by (rule Cons.IH)
  next
    case (Some v)
    with Cons.prems have "v = w" by simp
    with Some have "tag_at (c # cs) = Some w" by (simp split: if_splits)
    then show ?thesis by (rule tag_at_word)
  qed
qed

lemma getLineTag_Some:
  "getLineTag cm nLine = Inr (Some t) \<Longrightarrow>
     0 \<le> line t \<and> line t \<le> nLine \<and> line t < int (length cm) \<and>
     regex_exec True (cm ! nat (line t)) = Some (name t) \<and>
     (\<forall>j. line t < j \<and> j \<le> nLine \<longrightarrow> j < int (length cm) \<and> regex_exec True (cm ! nat j) = None)"
proof (induction cm nLine rule: getLineTag.induct)
  case (1 cm nLine)
  from "1.prems" have ge: "nLine \<ge> 0"
    by (subst (asm) getLineTag.simps) (simp split: if_splits)
  from "1.prems" ge obtain tx where tx: "lineInfo cm nLine = Some tx"
    by (subst (asm) getLineTag.simps) (simp split: option.splits)
  then have range: "nLine < int (length cm)" and txd: "tx = cm ! nat nLine"
    by (auto simp: lineInfo_def split: if_splits)
  show ?case
  proof (cases "regex_exec True tx")
    case None
    with "1.prems" ge tx have rec: "getLineTag cm (nLine - 1) = Inr (Some t)"
      by (subst (asm) getLineTag.simps) simp
    from "1.IH" [OF ge tx None rec]
    have ih: "0 \<le> line t \<and> line t \<le> nLine - 1 \<and> line t < int (length cm) \<and>
      regex_exec True (cm ! nat (line t)) = Some (name t) \<and>
      (\<forall>j. line t < j \<and> j \<le> nLine - 1 \<longrightarrow> j < int (length cm) \<and> regex_exec True (cm ! nat j) = None)" .
    show ?thesis
    proof (intro conjI allI impI)
      fix j assume j: "line t < j \<and> j \<le> nLine"
      show "j < int (length cm)" using j range by simp
      show "regex_exec True (cm ! nat j) = None"
      proof (cases "j = nLine")
        case True
        then show ?thesis using None txd by simp
      next
        case False
        with j ih show ?thesis by simp
      qed
    qed (use ih in auto)
  next
    case (Some w)
    with "1.prems" ge tx have "t = \<lparr>line = nLine, name = w\<rparr>"
      by (subst (asm) getLineTag.simps) simp
    then show ?thesis using Some ge range txd by auto
  qed
qed

lemma getLineTag_name: "getLineTag cm nLine = Inr (Some t) \<Longrightarrow> name t \<noteq> [] \<and> list_all isWord (name t)"
  using getLineTag_Some [of cm nLine t] regex_exec_word by blast

lemma loop_of_key_path:
  "key_path h cm l ts \<Longrightarrow> level > 0 \<Longrightarrow> getInverseTags_loop h cm acc l level = Some (Inr (acc @ ts))"
proof (induction arbitrary: acc level rule: key_path.induct)
  case (outermost cm l t h)
  have n: "name t \<noteq> []" using outermost(1) getLineTag_name by blast
  have "getInverseTags_loop h cm (acc @ [name t]) (getParentLine h cm (line t)) (getIndLevel h cm (line t)) = Some (Inr (acc @ [name t]))"
    using outermost(2) by (subst getInverseTags_loop.simps) simp
  then show ?case
    using outermost n by (subst getInverseTags_loop.simps) simp
next
  case (nested cm l t h ts)
  have n: "name t \<noteq> []" using nested(1) getLineTag_name by blast
  have "getInverseTags_loop h cm (acc @ [name t]) (getParentLine h cm (line t)) (getIndLevel h cm (line t)) = Some (Inr ((acc @ [name t]) @ ts))"
    using nested(2) by (rule nested.IH)
  then show ?case
    using nested(1) nested.prems n by (subst getInverseTags_loop.simps) simp
qed

lemma key_path_of_loop_aux:
  assumes "getInverseTags_loop h cm acc l level = Some y"
  shows "\<forall>ts. y = Inr ts \<longrightarrow>
    (if level > 0 then \<exists>ks. ts = acc @ ks \<and> key_path h cm l ks else ts = acc)"
  proof (rule getInverseTags_loop.raw_induct
      [where P = "\<lambda>h cm acc l level y. \<forall>ts. y = Inr ts \<longrightarrow>
         (if level > 0 then \<exists>ks. ts = acc @ ks \<and> key_path h cm l ks else ts = acc)",
        OF _ assms])
    fix loop h cm acc l level y
    assume ih: "\<And>h cm acc l level y. loop h cm acc l level = Some y \<Longrightarrow>
        \<forall>ts. y = Inr ts \<longrightarrow> (if level > 0 then \<exists>ks. ts = acc @ ks \<and> key_path h cm l ks else ts = acc)"
      and body: "(if 0 < level
      then case getLineTag cm l of Inl e \<Rightarrow> Some (Inl e)
           | Inr None \<Rightarrow> Some (Inl TypeError)
           | Inr (Some tag) \<Rightarrow>
               if name tag \<noteq> []
               then loop h cm (acc @ [name tag]) (getParentLine h cm (line tag)) (getIndLevel h cm (line tag))
               else Some (Inr acc)
      else Some (Inr acc)) = Some y"
    show "\<forall>ts. y = Inr ts \<longrightarrow> (if level > 0 then \<exists>ks. ts = acc @ ks \<and> key_path h cm l ks else ts = acc)"
    proof (cases "level > 0")
      case False
      with body show ?thesis by auto
    next
      case True
      show ?thesis
      proof (intro allI impI)
        fix ts assume y: "y = Inr ts"
        from body True y obtain t where t: "getLineTag cm l = Inr (Some t)"
          by (auto split: sum.splits option.splits)
        have n: "name t \<noteq> []" using t getLineTag_name by blast
        from body True y t n
        have rec: "loop h cm (acc @ [name t]) (getParentLine h cm (line t)) (getIndLevel h cm (line t)) = Some (Inr ts)"
          by simp
        note step = ih [OF rec, rule_format, OF refl]
        show "if 0 < level then \<exists>ks. ts = acc @ ks \<and> key_path h cm l ks else ts = acc"
        proof (cases "getIndLevel h cm (line t) > 0")
          case deeper: True
          with step obtain ks where ks: "ts = (acc @ [name t]) @ ks" "key_path h cm (getParentLine h cm (line t)) ks"
            by auto
          have "key_path h cm l (name t # ks)" using t deeper ks(2) by (rule key_path.nested)
          with ks(1) True show ?thesis by auto
        next
          case top: False
          with step have "ts = acc @ [name t]" by simp
          moreover have "key_path h cm l [name t]" using t top by (intro key_path.outermost) auto
          ultimately show ?thesis using True by auto
        qed
      qed
    qed
  qed

lemma key_path_of_loop:
  "getInverseTags_loop h cm acc l level = Some (Inr ts) \<Longrightarrow>
   (if level > 0 then \<exists>ks. ts = acc @ ks \<and> key_path h cm l ks else ts = acc)"
  using key_path_of_loop_aux by blast

lemma getInverseTags_key_path:
  "getInverseTags h cm nLine = Some (Inr ts) \<longleftrightarrow> key_path h cm nLine ts"
proof
  assume "getInverseTags h cm nLine = Some (Inr ts)"
  then show "key_path h cm nLine ts"
    using key_path_of_loop [of h cm "[]" nLine 1 ts] by (simp add: getInverseTags_def)
next
  assume "key_path h cm nLine ts"
  then show "getInverseTags h cm nLine = Some (Inr ts)"
    using loop_of_key_path [of h cm nLine ts 1 "[]"] by (simp add: getInverseTags_def)
qed


lemma key_path_nearest:
  assumes "key_path h cm l ks"
  shows "\<exists>t. getLineTag cm l = Inr (Some t) \<and> ks \<noteq> [] \<and> hd ks = name t"
  using assms by cases auto

text \<open>
  What \<open>getTags\<close> returns: \<open>getTags\<close> is the reverse of \<open>getInverseTags\<close>, and an
  error or a run that never ends is passed on. It returns a list exactly when the line
  has a key path, and the list is that path from the outermost key down to the nearest
  key at or above \<open>nLine\<close>: its reverse is built, from the nearest key upwards, by
  going to the parent line while the key is indented; its last element is the name of
  the first line at or above \<open>nLine\<close> that holds a key.
\<close>

theorem getTags_reversed_key_path:
  "getTags h cm nLine = map_option (map_sum id rev) (getInverseTags h cm nLine) \<and>
   (getTags h cm nLine = Some (Inr tags) \<longleftrightarrow> key_path h cm nLine (rev tags)) \<and>
   (getTags h cm nLine = Some (Inr tags) \<longrightarrow>
      (\<exists>t. getLineTag cm nLine = Inr (Some t) \<and> tags \<noteq> [] \<and> last tags = name t \<and>
           line t \<le> nLine \<and> regex_exec True (cm ! nat (line t)) = Some (name t) \<and>
           (\<forall>j. line t < j \<and> j \<le> nLine \<longrightarrow> regex_exec True (cm ! nat j) = None)))"
proof (intro conjI impI)
  show r: "getTags h cm nLine = map_option (map_sum id rev) (getInverseTags h cm nLine)"
    by (rule getTags_rev)
  have inv: "getTags h cm nLine = Some (Inr tags) \<longleftrightarrow>
      getInverseTags h cm nLine = Some (Inr (rev tags))"
  proof (cases "getInverseTags h cm nLine")
    case None
    then show ?thesis by (simp add: r)
  next
    case (Some y)
    then show ?thesis by (cases y) (auto simp: r)
  qed
  then show kp: "getTags h cm nLine = Some (Inr tags) \<longleftrightarrow> key_path h cm nLine (rev tags)"
    by (simp add: getInverseTags_key_path)
  assume "getTags h cm nLine = Some (Inr tags)"
  with kp have "key_path h cm nLine (rev tags)" by simp
  from key_path_nearest [OF this] obtain t
    where t: "getLineTag cm nLine = Inr (Some t)" "tags \<noteq> []" "hd (rev tags) = name t"
    by auto
  then have "last tags = name t" by (simp add: hd_rev)
  with t getLineTag_Some [OF t(1)]
  show "\<exists>t. getLineTag cm nLine = Inr (Some t) \<and> tags \<noteq> [] \<and> last tags = name t \<and>
           line t \<le> nLine \<and> regex_exec True (cm ! nat (line t)) = Some (name t) \<and>
           (\<forall>j. line t < j \<and> j \<le> nLine \<longrightarrow> regex_exec True (cm ! nat j) = None)"
    by blast
qed

lemma sample_inverse_tags:
  "getInverseTags sample_helpers sample_document 4 = Some (Inr [''other'', ''color'', ''scene''])"
  by (simp add: getInverseTags_def getInverseTags_loop.simps sample_document_def
      getLineTag.simps lineInfo_def tag_at_def isSpace_def isWord_def isLineTerminator_def
      getParentLine_def getParentLine_loop.simps sample_helpers_def)

theorem getTags_reversed_key_path_witness:
  "getTags sample_helpers sample_document 4 = Some (Inr [''scene'', ''color'', ''other'']) \<and>
   key_path sample_helpers sample_document 4 [''other'', ''color'', ''scene''] \<and>
   (\<exists>t. getLineTag sample_document 4 = Inr (Some t) \<and> name t = ''other'' \<and> line t \<le> 4)"
  using getTags_reversed_key_path
    [of sample_helpers sample_document 4 "[''scene'', ''color'', ''other'']"]
  by (auto simp: sample_inverse_tags)

subsection \<open>Where \<open>getInverseTags\<close> does not return\<close>

lemma getLineTag_no_key:
  "nLine < int (length cm) \<Longrightarrow>
   \<forall>j. 0 \<le> j \<and> j \<le> nLine \<longrightarrow> regex_exec True (cm ! nat j) = None \<Longrightarrow>
   getLineTag cm nLine = Inr None"
proof (induction cm nLine rule: getLineTag.induct)
  case (1 cm nLine)
  show ?case
  proof (cases "nLine \<ge> 0")
    case False
    then show ?thesis by (subst getLineTag.simps) simp
  next
    case True
    then have li: "lineInfo cm nLine = Some (cm ! nat nLine)"
      using "1.prems"(1) by (simp add: lineInfo_def)
    have none: "regex_exec True (cm ! nat nLine) = None"
      using True "1.prems"(2) by simp
    have "getLineTag cm nLine = getLineTag cm (nLine - 1)"
      using True li none by (subst getLineTag.simps) simp
    also have "\<dots> = Inr None"
      using "1.IH" [OF True li none] "1.prems" by simp
    finally show ?thesis .
  qed
qed

lemma getInverseTags_no_key:
  "nLine < int (length cm) \<Longrightarrow>
   \<forall>j. 0 \<le> j \<and> j \<le> nLine \<longrightarrow> regex_exec True (cm ! nat j) = None \<Longrightarrow>
   getInverseTags h cm nLine = Some (Inl TypeError)"
  by (simp add: getInverseTags_def getInverseTags_loop.simps getLineTag_no_key)

lemma indented_getLineTag: "getLineTag [''    a: 1''] 0 = Inr (Some \<lparr>line = 0, name = ''a''\<rparr>)"
  by (simp add: getLineTag.simps lineInfo_def tag_at_def isSpace_def isWord_def isLineTerminator_def)

lemma indented_getParentLine: "getParentLine sample_helpers [''    a: 1''] 0 = 0"
  by (simp add: getParentLine_def getParentLine_loop.simps)

lemma indented_getIndLevel: "getIndLevel sample_helpers [''    a: 1''] 0 = 1"
  by (simp add: sample_helpers_def isSpace_def)

lemma never_returns_aux:
  assumes "getInverseTags_loop h cm acc l level = Some y"
  shows "\<not> (h = sample_helpers \<and> cm = [''    a: 1''] \<and> l = 0 \<and> level = 1)"
proof (rule getInverseTags_loop.raw_induct
    [where P = "\<lambda>h cm acc l level y. \<not> (h = sample_helpers \<and> cm = [''    a: 1''] \<and> l = 0 \<and> level = 1)",
      OF _ assms])
  fix loop and h :: yaml_helpers and cm :: codemirror and acc :: "string list"
    and l level :: int and y :: "js_error + string list"
  assume ih: "\<And>h cm acc l level y. loop h cm acc l level = Some y \<Longrightarrow>
        \<not> (h = sample_helpers \<and> cm = [''    a: 1''] \<and> l = 0 \<and> level = 1)"
    and body: "(if 0 < level
      then case getLineTag cm l of Inl e \<Rightarrow> Some (Inl e)
           | Inr None \<Rightarrow> Some (Inl TypeError)
           | Inr (Some tag) \<Rightarrow>
               if name tag \<noteq> []
               then loop h cm (acc @ [name tag]) (getParentLine h cm (line tag)) (getIndLevel h cm (line tag))
               else Some (Inr acc)
      else Some (Inr acc)) = Some y"
  show "\<not> (h = sample_helpers \<and> cm = [''    a: 1''] \<and> l = 0 \<and> level = 1)"
  proof
    assume a: "h = sample_helpers \<and> cm = [''    a: 1''] \<and> l = 0 \<and> level = 1"
    with body have "loop sample_helpers [''    a: 1''] (acc @ [''a'']) 0 1 = Some y"
      by (simp add: indented_getLineTag indented_getParentLine indented_getIndLevel)
    from ih [OF this] show False by simp
  qed
qed

lemma indented_never_returns: "getInverseTags sample_helpers [''    a: 1''] 0 = None"
proof (cases "getInverseTags sample_helpers [''    a: 1''] 0")
  case (Some y)
  then show ?thesis using never_returns_aux [of sample_helpers "[''    a: 1'']" "[]" 0 1 y]
    by (simp add: getInverseTags_def)
qed simp

text \<open>
  C2: \<open>getInverseTags\<close> does not always return a list. Where no line at or above
  \<open>nLine\<close> holds a key, \<open>getLineTag\<close> returns \<open>undefined\<close> and reading \<open>tag.name\<close> throws
  a \<open>TypeError\<close>, before the test that the comment ``Prevent errors'' announces. Where
  the key found is indented and no line above it has the level below, \<open>getParentLine\<close>
  returns the same line again and the loop never ends.
\<close>

theorem getInverseTags_throws_or_loops:
  "getInverseTags h [''# scene'', ''sources:''] 0 = Some (Inl TypeError) \<and>
   getInverseTags sample_helpers [''    a: 1''] 0 = None"
proof
  show "getInverseTags h [''# scene'', ''sources:''] 0 = Some (Inl TypeError)"
    by (rule getInverseTags_no_key)
      (simp_all add: tag_at_def isSpace_def isWord_def isLineTerminator_def)
  show "getInverseTags sample_helpers [''    a: 1''] 0 = None"
    by (rule indented_never_returns)
qed

text \<open>
  C1: \<open>getTags\<close> does not return a key path for every line. On a line that has no key
  at or above it, such as a comment in the first line, the key path is empty, and
  \<open>getTags\<close> passes on the \<open>TypeError\<close> of \<open>getInverseTags\<close>.
\<close>

theorem getTags_throws_without_key:
  "getTags h [''# scene'', ''sources:''] 0 = Some (Inl TypeError)"
proof -
  have "getInverseTags h [''# scene'', ''sources:''] 0 = Some (Inl TypeError)"
    by (rule getInverseTags_no_key)
      (simp_all add: tag_at_def isSpace_def isWord_def isLineTerminator_def)
  then show ?thesis by (simp add: getTags_def)
qed

subsection \<open>\<open>getColorBlockShader\<close>\<close>

lemma indexOf_from_range: "0 \<le> k \<Longrightarrow> indexOf_from s pat k = - 1 \<or> k \<le> indexOf_from s pat k"
proof (induction s arbitrary: k)
  case Nil
  then show ?case by simp
next
  case (Cons c cs)
  from Cons.IH [of "k + 1"] Cons.prems show ?case by auto
qed

lemma indexOf_zero: "indexOf s pat = 0 \<longleftrightarrow> prefix pat s"
proof (cases s)
  case Nil
  then show ?thesis by (auto simp: indexOf_def)
next
  case (Cons c cs)
  have p: "take (length pat) s = pat \<longleftrightarrow> prefix pat s"
    by (metis append_eq_conv_conj prefix_def take_is_prefix)
  show ?thesis
  proof (cases "take (length pat) s = pat")
    case True
    with p Cons show ?thesis by (simp add: indexOf_def)
  next
    case False
    from indexOf_from_range [of 1 cs pat] have "indexOf_from cs pat 1 \<noteq> 0" by auto
    with False p Cons show ?thesis by (simp add: indexOf_def)
  qed
qed

lemma key_path_words: "key_path h cm l ks \<Longrightarrow> \<forall>k\<in>set ks. k \<noteq> [] \<and> list_all isWord k"
  by (induction rule: key_path.induct) (auto dest: getLineTag_name)

lemma word_no_slash: "list_all isWord w \<Longrightarrow> CHR ''/'' \<notin> set w"
  by (auto simp: list_all_iff isWord_def)

lemma prefix_segment:
  assumes w: "CHR ''/'' \<notin> set w" and a: "CHR ''/'' \<notin> set a"
  shows "prefix (CHR ''/'' # w @ CHR ''/'' # p) (concat (map (\<lambda>t. ''/'' @ t) (a # ts))) \<longleftrightarrow>
         a = w \<and> prefix (CHR ''/'' # p) (concat (map (\<lambda>t. ''/'' @ t) ts))"
proof (cases ts)
  case Nil
  have "\<not> prefix (w @ CHR ''/'' # p) a"
  proof
    assume "prefix (w @ CHR ''/'' # p) a"
    then obtain z where "a = (w @ CHR ''/'' # p) @ z" by (auto simp: prefix_def)
    then have "CHR ''/'' \<in> set a" by simp
    with a show False by simp
  qed
  with Nil show ?thesis by simp
next
  case (Cons b ts')
  define R where "R = b @ concat (map (\<lambda>t. ''/'' @ t) ts')"
  have tw: "takeWhile (\<lambda>c. c \<noteq> CHR ''/'') (x @ CHR ''/'' # y) = x" if "CHR ''/'' \<notin> set x" for x y
    using that by (induction x) auto
  have "prefix (w @ CHR ''/'' # p) (a @ CHR ''/'' # R) \<longleftrightarrow> a = w \<and> prefix p R"
  proof
    assume "prefix (w @ CHR ''/'' # p) (a @ CHR ''/'' # R)"
    then obtain z where z: "a @ CHR ''/'' # R = w @ CHR ''/'' # (p @ z)"
      by (auto simp: prefix_def)
    from arg_cong [OF z, of "takeWhile (\<lambda>c. c \<noteq> CHR ''/'')"] have "a = w"
      using tw [OF a] tw [OF w] by simp
    with z show "a = w \<and> prefix p R" by (simp add: prefix_def)
  next
    assume "a = w \<and> prefix p R"
    then show "prefix (w @ CHR ''/'' # p) (a @ CHR ''/'' # R)" by simp
  qed
  with Cons show ?thesis by (simp add: R_def)
qed

lemma shader_address_iff:
  assumes "\<forall>k\<in>set ts. k \<noteq> [] \<and> list_all isWord k"
  shows "prefix ''/color/blocks/shaders/'' (tagsToAddress ts) \<longleftrightarrow>
         3 < length ts \<and> take 3 ts = [''color'', ''blocks'', ''shaders'']"
proof -
  define addr where "addr us = concat (map (\<lambda>t. ''/'' @ t) us)" for us :: "string list"
  have pat: "''/color/blocks/shaders/'' =
      CHR ''/'' # ''color'' @ CHR ''/'' # (''blocks'' @ CHR ''/'' # (''shaders'' @ [CHR ''/'']))"
    by simp
  have slash: "CHR ''/'' \<notin> set k" if "k \<in> set ts" for k
    using assms that word_no_slash by blast
  have seg: "prefix (CHR ''/'' # w @ CHR ''/'' # p) (addr (a # us)) \<longleftrightarrow>
      a = w \<and> prefix (CHR ''/'' # p) (addr us)"
    if "CHR ''/'' \<notin> set w" "CHR ''/'' \<notin> set a" for w a p us
    unfolding addr_def using that by (rule prefix_segment)
  have nil: "\<not> prefix (CHR ''/'' # p) (addr [])" for p
    by (simp add: addr_def)
  have last_seg: "prefix [CHR ''/''] (addr us) \<longleftrightarrow> us \<noteq> []" for us
    by (cases us) (auto simp: addr_def)
  have "prefix ''/color/blocks/shaders/'' (addr ts) \<longleftrightarrow>
      (\<exists>d us. ts = ''color'' # ''blocks'' # ''shaders'' # d # us)"
  proof (cases ts)
    case Nil
    then show ?thesis using nil by (simp add: pat del: append.simps)
  next
    case c1: (Cons a1 t1)
    have s1: "CHR ''/'' \<notin> set a1" using slash c1 by simp
    have e1: "prefix ''/color/blocks/shaders/'' (addr ts) \<longleftrightarrow>
        a1 = ''color'' \<and> prefix (CHR ''/'' # ''blocks'' @ CHR ''/'' # (''shaders'' @ [CHR ''/''])) (addr t1)"
      unfolding pat c1 using s1 by (intro seg) simp_all
    show ?thesis
    proof (cases t1)
      case Nil
      with e1 c1 nil show ?thesis by simp
    next
      case c2: (Cons a2 t2)
      have s2: "CHR ''/'' \<notin> set a2" using slash c1 c2 by simp
      have e2: "prefix (CHR ''/'' # ''blocks'' @ CHR ''/'' # (''shaders'' @ [CHR ''/''])) (addr t1) \<longleftrightarrow>
          a2 = ''blocks'' \<and> prefix (CHR ''/'' # ''shaders'' @ [CHR ''/'']) (addr t2)"
        unfolding c2 using s2 by (intro seg) simp_all
      show ?thesis
      proof (cases t2)
        case Nil
        with e1 e2 c1 c2 nil show ?thesis by simp
      next
        case c3: (Cons a3 t3)
        have s3: "CHR ''/'' \<notin> set a3" using slash c1 c2 c3 by simp
        have e3: "prefix (CHR ''/'' # ''shaders'' @ [CHR ''/'']) (addr t2) \<longleftrightarrow>
            a3 = ''shaders'' \<and> prefix [CHR ''/''] (addr t3)"
          unfolding c3 using s3 by (intro seg) simp_all
        from e1 e2 e3 last_seg [of t3] c1 c2 c3 show ?thesis
          by (cases t3) simp_all
      qed
    qed
  qed
  also have "\<dots> \<longleftrightarrow> 3 < length ts \<and> take 3 ts = [''color'', ''blocks'', ''shaders'']"
  proof
    assume "\<exists>d us. ts = ''color'' # ''blocks'' # ''shaders'' # d # us"
    then show "3 < length ts \<and> take 3 ts = [''color'', ''blocks'', ''shaders'']" by auto
  next
    assume r: "3 < length ts \<and> take 3 ts = [''color'', ''blocks'', ''shaders'']"
    then obtain a b c d us where ts: "ts = a # b # c # d # us"
      by (cases ts; simp) (rename_tac t1, case_tac t1; simp; rename_tac t2, case_tac t2; simp; rename_tac t3, case_tac t3; simp)
    with r show "\<exists>d us. ts = ''color'' # ''blocks'' # ''shaders'' # d # us" by simp
  qed
  finally show ?thesis by (simp add: addr_def tagsToAddress_concat)
qed

text \<open>
  What \<open>getColorBlockShader\<close> returns where \<open>getInverseTags\<close> returns a list. The
  address of the list starts with \<open>/color/blocks/shaders/\<close> exactly when the list has a
  fourth element after \<open>color\<close>, \<open>blocks\<close>, \<open>shaders\<close>. Outside such a block the result
  is the empty object; inside, it is that of the reads \<open>scene.styles[invTags[3]]\<close> and,
  of a style that is truthy, \<open>style["shaders"]\<close>.
\<close>

lemma getColorBlockShader_inside_block:
  assumes t: "getInverseTags h cm nLine = Some (Inr invTags)"
  shows "prefix ''/color/blocks/shaders/'' (tagsToAddress invTags) \<longleftrightarrow>
           3 < length invTags \<and> take 3 invTags = [''color'', ''blocks'', ''shaders'']"
    and "\<not> (3 < length invTags \<and> take 3 invTags = [''color'', ''blocks'', ''shaders'']) \<Longrightarrow>
         getColorBlockShader h inherited tangram cm nLine = Some (Inr (Obj []))"
    and "3 < length invTags \<Longrightarrow> take 3 invTags = [''color'', ''blocks'', ''shaders''] \<Longrightarrow>
         getProp inherited tangram ''styles'' = Inr sts \<Longrightarrow>
         getProp inherited sts (invTags ! 3) = Inr sty \<Longrightarrow>
         getColorBlockShader h inherited tangram cm nLine =
           Some (if truthy sty then getProp inherited sty ''shaders'' else Inr (Obj []))"
proof -
  have words: "\<forall>k\<in>set invTags. k \<noteq> [] \<and> list_all isWord k"
    using t key_path_words getInverseTags_key_path by blast
  show p: "prefix ''/color/blocks/shaders/'' (tagsToAddress invTags) \<longleftrightarrow>
           3 < length invTags \<and> take 3 invTags = [''color'', ''blocks'', ''shaders'']"
    by (rule shader_address_iff [OF words])
  show "getColorBlockShader h inherited tangram cm nLine = Some (Inr (Obj []))"
    if "\<not> (3 < length invTags \<and> take 3 invTags = [''color'', ''blocks'', ''shaders''])"
  proof -
    from that p have "\<not> prefix ''/color/blocks/shaders/'' (tagsToAddress invTags)" by blast
    with t show ?thesis by (simp add: getColorBlockShader_def indexOf_zero)
  qed
  show "getColorBlockShader h inherited tangram cm nLine =
           Some (if truthy sty then getProp inherited sty ''shaders'' else Inr (Obj []))"
    if l: "3 < length invTags" and b: "take 3 invTags = [''color'', ''blocks'', ''shaders'']"
      and s: "getProp inherited tangram ''styles'' = Inr sts"
      and y: "getProp inherited sts (invTags ! 3) = Inr sty"
  proof -
    from l b p have pre: "prefix ''/color/blocks/shaders/'' (tagsToAddress invTags)" by blast
    from l have k: "key_at invTags 3 = invTags ! 3" by (simp add: key_at_def)
    from t pre s y show ?thesis
      by (simp add: getColorBlockShader_def indexOf_zero k)
  qed
qed

lemma shader_inverse_tags:
  "getInverseTags sample_helpers shader_document 5 =
     Some (Inr [''color'', ''blocks'', ''shaders'', ''water'', ''styles''])"
  by (simp add: getInverseTags_def getInverseTags_loop.simps shader_document_def
      getLineTag.simps lineInfo_def tag_at_def isSpace_def isWord_def isLineTerminator_def
      getParentLine_def getParentLine_loop.simps sample_helpers_def)

lemma getColorBlockShader_sample:
  "getColorBlockShader sample_helpers inherited shader_scene shader_document 5 =
     Some (Inr (Obj [(''blocks'', Obj [(''color'', Str ''color.rgb = vec3(1.0);'')])]))"
  using getColorBlockShader_inside_block(3) [OF shader_inverse_tags, of inherited shader_scene
      "Obj [(''water'',
         Obj [(''shaders'',
           Obj [(''blocks'', Obj [(''color'', Str ''color.rgb = vec3(1.0);'')])])])]"
      "Obj [(''shaders'',
           Obj [(''blocks'', Obj [(''color'', Str ''color.rgb = vec3(1.0);'')])])]"]
  by (simp add: shader_scene_def getProp_def)

text \<open>
  C3: \<open>getColorBlockShader\<close> does not return the empty object in every other case. On
  a line that has no key at or above it, which is in no shader block, it passes on the
  \<open>TypeError\<close> of \<open>getInverseTags\<close>.
\<close>

theorem getColorBlockShader_throws_without_key:
  "getColorBlockShader h inherited tangram [''# scene'', ''sources:''] 0 = Some (Inl TypeError)"
proof -
  have "getInverseTags h [''# scene'', ''sources:''] 0 = Some (Inl TypeError)"
    by (rule getInverseTags_no_key)
      (simp_all add: tag_at_def isSpace_def isWord_def isLineTerminator_def)
  then show ?thesis by (simp add: getColorBlockShader_def)
qed

subsection \<open>\<open>getYAMLContent\<close>\<close>

text \<open>
  The first look-up is not guarded: where it gives \<open>undefined\<close> or \<open>null\<close> and more tags
  follow, the read of the second tag throws.
\<close>

lemma getYAMLContent_nullish_first_tag:
  assumes "getProp inherited sceneConfig t = Inr v" and "v = Undefined \<or> v = Null"
  shows "getYAMLContent inherited sceneConfig (t # u # ts) = Inl TypeError"
proof -
  have "getProp inherited v u = Inl TypeError" using assms(2) by (auto simp: getProp_def)
  then have "getYAMLContent_loop inherited v (t # u # ts) 1 = Inl TypeError"
    by (subst getYAMLContent_loop.simps) (simp add: key_at_def)
  with assms(1) show ?thesis by (simp add: getYAMLContent_def key_at_def)
qed

text \<open>Along a path that is all there, the value at the end of the path is returned.\<close>

lemma getYAMLContent_full_path:
  "getYAMLContent inherited sample_config [''sources'', ''osm'', ''type''] = Inr (Str ''TopoJSON'')"
  by (simp add: sample_config_def getYAMLContent_def key_at_def getYAMLContent_loop.simps
      getProp_def)

text \<open>
  C5: \<open>getYAMLContent\<close> does not return the nearest content for every list of tags. The
  first look-up is not guarded as the later ones are. Where the first tag names an
  entry that is \<open>null\<close>, as the entry of a key without a value is, the function returns
  \<open>null\<close> for that tag alone, and throws a \<open>TypeError\<close> when more tags follow, where the
  nearest content is the scene configuration it started from. This holds whatever the
  prototype chains hold.
\<close>

theorem getYAMLContent_throws_on_null_entry:
  "getYAMLContent inherited sample_config [''cameras'', ''perspective''] = Inl TypeError \<and>
   getYAMLContent inherited sample_config [''cameras''] = Inr Null"
proof
  have c: "getProp inherited sample_config ''cameras'' = Inr Null"
    by (simp add: sample_config_def getProp_def)
  then show "getYAMLContent inherited sample_config [''cameras'', ''perspective''] = Inl TypeError"
    by (rule getYAMLContent_nullish_first_tag) simp
  from c show "getYAMLContent inherited sample_config [''cameras''] = Inr Null"
    by (simp add: getYAMLContent_def key_at_def getYAMLContent_loop.simps)
qed

subsection \<open>\<open>determineScene\<close>\<close>

lemma trim_nonempty: "trim c \<noteq> [] \<longleftrightarrow> (\<exists>x\<in>set c. \<not> isSpace x)"
proof -
  have "trim c \<noteq> [] \<longleftrightarrow> (\<exists>x\<in>set (dropWhile isSpace c). \<not> isSpace x)"
    by (auto simp: trim_def dropWhile_eq_Nil_conv)
  also have "\<dots> \<longleftrightarrow> (\<exists>x\<in>set c. \<not> isSpace x)"
  proof
    assume "\<exists>x\<in>set (dropWhile isSpace c). \<not> isSpace x"
    then show "\<exists>x\<in>set c. \<not> isSpace x" by (meson set_dropWhileD)
  next
    assume "\<exists>x\<in>set c. \<not> isSpace x"
    then have ne: "dropWhile isSpace c \<noteq> []" by (auto simp: dropWhile_eq_Nil_conv)
    then have "\<not> isSpace (hd (dropWhile isSpace c))" by (rule hd_dropWhile)
    with ne show "\<exists>x\<in>set (dropWhile isSpace c). \<not> isSpace x"
      using hd_in_set by blast
  qed
  finally show ?thesis .
qed

text \<open>
  C9: \<open>determineScene\<close> resolves, in this order of priority, to the scene of the query
  string when the query has a scene parameter (one that is not empty), otherwise to
  the stored scene data when there is one whose contents are not empty after trimming
  (that is, hold a character that is no white space), and otherwise to the default
  scene \<open>data/scenes/default.yaml\<close>.
\<close>

theorem determineScene_priority:
  "(truthy_string (scene query) \<longrightarrow>
      (\<exists>s. scene query = Some s \<and> determineScene query stored = url_scene s)) \<and>
   (\<not> truthy_string (scene query) \<and> stored = Some sceneData \<and>
    contents sceneData = Some c \<and> trim c \<noteq> [] \<longrightarrow>
      determineScene query stored = sceneData) \<and>
   (\<not> truthy_string (scene query) \<and>
    (stored = None \<or>
     (\<exists>d. stored = Some d \<and>
        (contents d = None \<or> (\<exists>c. contents d = Some c \<and> trim c = [])))) \<longrightarrow>
      determineScene query stored = url_scene ''data/scenes/default.yaml'') \<and>
   (trim c \<noteq> [] \<longleftrightarrow> (\<exists>x\<in>set c. \<not> isSpace x))"
proof (intro conjI impI)
  assume "truthy_string (scene query)"
  then show "\<exists>s. scene query = Some s \<and> determineScene query stored = url_scene s"
    by (auto simp: determineScene_def truthy_string_def split: option.splits)
next
  assume a: "\<not> truthy_string (scene query) \<and> stored = Some sceneData \<and>
    contents sceneData = Some c \<and> trim c \<noteq> []"
  then have "c \<noteq> []" by (auto simp: trim_def)
  with a show "determineScene query stored = sceneData"
    by (simp add: determineScene_def)
next
  assume "\<not> truthy_string (scene query) \<and>
    (stored = None \<or>
     (\<exists>d. stored = Some d \<and>
        (contents d = None \<or> (\<exists>c. contents d = Some c \<and> trim c = []))))"
  then show "determineScene query stored = url_scene ''data/scenes/default.yaml''"
    by (auto simp: determineScene_def DEFAULT_SCENE_def)
next
  show "trim c \<noteq> [] \<longleftrightarrow> (\<exists>x\<in>set c. \<not> isSpace x)" by (rule trim_nonempty)
qed

theorem determineScene_priority_witness:
  "determineScene \<lparr>scene = Some ''my.yaml'', lines = None\<rparr> (Some stored_scene) = url_scene ''my.yaml'' \<and>
   determineScene \<lparr>scene = None, lines = None\<rparr> (Some stored_scene) = stored_scene \<and>
   determineScene \<lparr>scene = None, lines = None\<rparr> None = url_scene ''data/scenes/default.yaml'' \<and>
   determineScene \<lparr>scene = Some [], lines = None\<rparr>
     (Some (stored_scene\<lparr>contents := Some ''  ''\<rparr>)) = url_scene ''data/scenes/default.yaml''"
proof -
  have t: "trim ''cameras: {}'' \<noteq> []" "trim ''  '' = []"
    by (simp_all add: trim_def isSpace_def)
  from determineScene_priority [of "\<lparr>scene = Some ''my.yaml'', lines = None\<rparr>" "Some stored_scene"]
    determineScene_priority [of "\<lparr>scene = None, lines = None\<rparr>" "Some stored_scene" stored_scene "''cameras: {}''"]
    determineScene_priority [of "\<lparr>scene = None, lines = None\<rparr>" None]
    determineScene_priority [of "\<lparr>scene = Some [], lines = None\<rparr>"
      "Some (stored_scene\<lparr>contents := Some ''  ''\<rparr>)"]
    t
  show ?thesis by (simp add: truthy_string_def stored_scene_def)
qed

subsection \<open>\<open>load\<close>\<close>

text \<open>
  C8: \<open>load\<close> throws exactly when the scene it is given provides neither a url nor
  contents (none that is there and not empty), and what it throws is the error ``no
  scene url or contents provided''. When a url is provided and the response fetched for
  it is not \<open>ok\<close>, the one error handed to \<open>onLoadError\<close> says that the scene could not
  be found for status 404 and that something went wrong for every other status.
\<close>

theorem load_errors:
  "((\<exists>e. snd (load env scn) = Throws e) \<longleftrightarrow>
      \<not> truthy_string (url scn) \<and> \<not> truthy_string (contents scn)) \<and>
   (snd (load env scn) = Throws e \<longrightarrow> e = Error ''no scene url or contents provided'') \<and>
   (truthy_string (url scn) \<and> url scn = Some u \<and>
    snd (fetchPromise env (prependProtocolToUrl env u)) = Inr r \<and> \<not> ok r \<longrightarrow>
      handled_errors (fst (load env scn)) =
        [Error (if status r = 404 then ''The scene you requested could not be found.''
                else ''Something went wrong loading the scene!'')])"
proof (intro conjI impI)
  show "(\<exists>e. snd (load env scn) = Throws e) \<longleftrightarrow>
      \<not> truthy_string (url scn) \<and> \<not> truthy_string (contents scn)"
    by (auto simp: load_def Let_def split: prod.splits sum.splits)
  show "e = Error ''no scene url or contents provided''" if "snd (load env scn) = Throws e"
    using that by (auto simp: load_def Let_def split: prod.splits sum.splits if_splits)
  show "handled_errors (fst (load env scn)) =
        [Error (if status r = 404 then ''The scene you requested could not be found.''
                else ''Something went wrong loading the scene!'')]"
    if "truthy_string (url scn) \<and> url scn = Some u \<and>
      snd (fetchPromise env (prependProtocolToUrl env u)) = Inr r \<and> \<not> ok r"
    using that by (auto simp: load_def Let_def checkResponse_def split: prod.splits)
qed

theorem load_errors_witness:
  "snd (load sample_env (url_scene [])) = Throws (Error ''no scene url or contents provided'') \<and>
   handled_errors (fst (load sample_env (url_scene ''https://example.com/missing.yaml''))) =
     [Error ''The scene you requested could not be found.''] \<and>
   handled_errors (fst (load sample_env (url_scene ''https://example.com/broken.yaml''))) =
     [Error ''Something went wrong loading the scene!'']"
proof -
  have f: "snd (fetchPromise sample_env (prependProtocolToUrl sample_env ''https://example.com/missing.yaml'')) =
      Inr \<lparr>ok = False, status = 404, response_text = []\<rparr>"
    "snd (fetchPromise sample_env (prependProtocolToUrl sample_env ''https://example.com/broken.yaml'')) =
      Inr \<lparr>ok = False, status = 500, response_text = []\<rparr>"
    by (simp_all add: fetchPromise_def sample_env_def)
  have n: "\<not> truthy_string (url (url_scene [])) \<and> \<not> truthy_string (contents (url_scene []))"
    by (simp add: truthy_string_def url_scene_def)
  from load_errors [of sample_env "url_scene []"] n
  obtain e where e: "snd (load sample_env (url_scene [])) = Throws e" by blast
  with load_errors [of sample_env "url_scene []" e]
  have 1: "snd (load sample_env (url_scene [])) = Throws (Error ''no scene url or contents provided'')"
    by simp
  from load_errors [of sample_env "url_scene ''https://example.com/missing.yaml''" _
      "''https://example.com/missing.yaml''" "\<lparr>ok = False, status = 404, response_text = []\<rparr>"] f(1)
  have 2: "handled_errors (fst (load sample_env (url_scene ''https://example.com/missing.yaml''))) =
     [Error ''The scene you requested could not be found.'']"
    by (simp add: truthy_string_def url_scene_def)
  from load_errors [of sample_env "url_scene ''https://example.com/broken.yaml''" _
      "''https://example.com/broken.yaml''" "\<lparr>ok = False, status = 500, response_text = []\<rparr>"] f(2)
  have 3: "handled_errors (fst (load sample_env (url_scene ''https://example.com/broken.yaml''))) =
     [Error ''Something went wrong loading the scene!'']"
    by (simp add: truthy_string_def url_scene_def)
  from 1 2 3 show ?thesis by simp
qed
subsection \<open>\<open>updateContent\<close>: matches across lines\<close>

lemma nl_space: "isSpace (CHR 0x0A)"
  by (simp add: isSpace_def)

lemma nl_terminator: "isLineTerminator (CHR 0x0A)"
  by (simp add: isLineTerminator_def)

lemma tailLines_Nil: "tailLines [] = []"
  by (simp add: tailLines_def)

lemma tailLines_Cons: "tailLines (l # ls) = CHR 0x0A # l @ tailLines ls"
  by (simp add: tailLines_def)

lemma tailLines_append: "tailLines (A @ B) = tailLines A @ tailLines B"
  by (simp add: tailLines_def)

lemma joinLines_Nil: "joinLines [] = []"
  by (simp add: joinLines_def)

lemma joinLines_Cons: "joinLines (l # ls) = l @ tailLines ls"
  by (simp add: joinLines_def)

lemma joinLines_append: "A \<noteq> [] \<Longrightarrow> joinLines (A @ B) = joinLines A @ tailLines B"
  by (cases A) (simp_all add: joinLines_Cons tailLines_append)

lemma tailLines_joinLines: "Y \<noteq> [] \<Longrightarrow> tailLines Y = CHR 0x0A # joinLines Y"
  by (cases Y) (simp_all add: joinLines_Cons tailLines_Cons)

lemma tailLines_cases: "tailLines R = [] \<or> (\<exists>t. tailLines R = CHR 0x0A # t)"
  by (cases R) (simp_all add: tailLines_Nil tailLines_Cons)

lemma dropWhile_space_line:
  "dropWhile isSpace (l @ t) = (if blank l then dropWhile isSpace t else dropWhile isSpace l @ t)"
  by (simp add: blank_def list_all_iff dropWhile_append)

lemma takeWhile_space_line:
  "takeWhile isSpace (l @ t) = (if blank l then l @ takeWhile isSpace t else takeWhile isSpace l)"
  by (simp add: blank_def list_all_iff takeWhile_append)

lemma dropWhile_space_tail:
  "dropWhile isSpace (tailLines ls) =
     (case dropWhile blank ls of [] \<Rightarrow> [] | m # after \<Rightarrow> dropWhile isSpace m @ tailLines after)"
  by (induction ls) (simp_all add: tailLines_Nil tailLines_Cons nl_space dropWhile_space_line)

lemma dropWhile_space_join:
  "dropWhile isSpace (l @ tailLines ls) =
     (case dropWhile blank (l # ls) of [] \<Rightarrow> []
      | m # after \<Rightarrow> dropWhile isSpace m @ tailLines after)"
  by (simp add: dropWhile_space_line dropWhile_space_tail)

lemma takeWhile_space_join:
  assumes "dropWhile blank (l # ls) = m # after"
  shows "takeWhile isSpace (l @ tailLines ls) \<noteq> [] \<longleftrightarrow>
         \<not> (takeWhile blank (l # ls) = [] \<and> takeWhile isSpace m = [])"
proof (cases "blank l")
  case True
  with assms have "ls \<noteq> []" by auto
  then obtain t where "tailLines ls = CHR 0x0A # t" using tailLines_cases [of ls]
    by (cases ls) (auto simp: tailLines_Cons)
  with True show ?thesis by (simp add: takeWhile_space_line nl_space)
next
  case False
  with assms have "m = l" by simp
  with False show ?thesis by (simp add: takeWhile_space_line)
qed

lemma startsWith_line:
  assumes "CHR 0x0A \<notin> set p"
  shows "startsWith (x @ tailLines R) p \<longleftrightarrow> startsWith x p"
proof -
  have sw: "startsWith s p \<longleftrightarrow> prefix p s" for s
    unfolding startsWith_def by (metis append_eq_conv_conj prefix_def take_is_prefix)
  have "prefix p (x @ tailLines R) \<longleftrightarrow> prefix p x"
  proof
    assume "prefix p (x @ tailLines R)"
    then consider "prefix p x" | us where "p = x @ us" "prefix us (tailLines R)"
      by (auto simp: prefix_append)
    then show "prefix p x"
    proof cases
      case 2
      show ?thesis
      proof (cases us)
        case Nil
        with 2 show ?thesis by simp
      next
        case (Cons c cs)
        with 2(2) tailLines_cases [of R] have "c = CHR 0x0A" by auto
        with 2(1) Cons assms show ?thesis by simp
      qed
    qed
  qed (simp add: prefix_prefix)
  then show ?thesis by (simp add: sw)
qed

lemma startsWith_drop: "startsWith x p \<Longrightarrow> drop (length p) (x @ t) = drop (length p) x @ t"
proof -
  assume "startsWith x p"
  then have "length (take (length p) x) = length p" by (simp add: startsWith_def)
  then have "length p \<le> length x" by simp
  then show ?thesis by simp
qed

lemma rest_of_line:
  assumes "\<forall>c\<in>set u. \<not> isLineTerminator c"
  shows "takeWhile (\<lambda>c. \<not> isLineTerminator c) (u @ tailLines R) = u"
    and "dropWhile (\<lambda>c. \<not> isLineTerminator c) (u @ tailLines R) = tailLines R"
  using assms tailLines_cases [of R]
  by (auto simp: takeWhile_append dropWhile_append nl_terminator)

lemma endpoint_nonempty: "endpoint u \<Longrightarrow> u \<noteq> []"
  by (auto simp: endpoint_def list_ex_iff)

lemma clean_dropWhile: "clean_lines L \<Longrightarrow> clean_lines (dropWhile P L)"
  by (auto simp: clean_lines_def dest: set_dropWhileD)

lemma match_pattern_lines:
  assumes clean: "clean_lines (l # ls)"
  shows "match_pattern (l @ tailLines ls) =
     (case match_lines (l # ls) of
        None \<Rightarrow> None
      | Some R \<Rightarrow> Some (take (length (l @ tailLines ls) - length (tailLines R)) (l @ tailLines ls),
                        tailLines R))"
proof -
  define T where "T = l @ tailLines ls"
  define L where "L = l # ls"
  have none: "match_pattern T = None" if "\<not> (takeWhile isSpace T \<noteq> [] \<and>
      startsWith (dropWhile isSpace T) url_key \<and>
      takeWhile isSpace (drop (length url_key) (dropWhile isSpace T)) \<noteq> [] \<and>
      endpoint (takeWhile (\<lambda>c. \<not> isLineTerminator c)
        (dropWhile isSpace (drop (length url_key) (dropWhile isSpace T)))))"
  proof (cases "match_pattern T")
    case (Some x)
    then obtain m rest where "match_pattern T = Some (m, rest)" by (cases x) auto
    with that show ?thesis unfolding match_pattern_Some by blast
  qed simp
  have some: "match_pattern T = Some (take (length T - length rest) T, rest)"
    if "takeWhile isSpace T \<noteq> []" "startsWith (dropWhile isSpace T) url_key"
      "takeWhile isSpace (drop (length url_key) (dropWhile isSpace T)) \<noteq> []"
      "endpoint (takeWhile (\<lambda>c. \<not> isLineTerminator c)
        (dropWhile isSpace (drop (length url_key) (dropWhile isSpace T))))"
      "rest = dropWhile (\<lambda>c. \<not> isLineTerminator c)
        (dropWhile isSpace (drop (length url_key) (dropWhile isSpace T)))" for rest
  proof -
    from that obtain m where m: "match_pattern T = Some (m, rest)"
      unfolding match_pattern_Some by blast
    from match_pattern_split [OF this] have "T = m @ rest" by simp
    then have "take (length T - length rest) T = m" by simp
    with m show ?thesis by simp
  qed
  show ?thesis
  proof (cases "dropWhile blank L")
    case Nil
    then have d: "dropWhile isSpace T = []"
      using dropWhile_space_join [of l ls] by (simp add: T_def L_def)
    have "\<not> startsWith (dropWhile isSpace T) url_key"
      unfolding d by (simp add: startsWith_def url_key_def)
    then have "match_pattern T = None" by (intro none) blast
    with Nil show ?thesis by (simp add: match_lines_def T_def L_def)
  next
    case (Cons m after)
    define m' where "m' = dropWhile isSpace m"
    define x where "x = drop (length url_key) m'"
    have cm: "clean_lines (m # after)"
      using clean_dropWhile [OF clean, of blank] Cons by (simp add: L_def)
    then have clean_m: "\<forall>c\<in>set m. \<not> isLineTerminator c" and clean_after: "clean_lines after"
      by (simp_all add: clean_lines_def)
    have clean_x: "\<forall>c\<in>set z. \<not> isLineTerminator c" if "set z \<subseteq> set x" for z
      using that clean_m unfolding x_def m'_def
      by (meson in_set_dropD set_dropWhileD subsetD)
    have r1: "dropWhile isSpace T = m' @ tailLines after"
      using dropWhile_space_join [of l ls] Cons by (simp add: T_def L_def m'_def)
    have c1: "takeWhile isSpace T \<noteq> [] \<longleftrightarrow> \<not> (takeWhile blank L = [] \<and> takeWhile isSpace m = [])"
      using takeWhile_space_join [of l ls m after] Cons by (simp add: T_def L_def)
    have c2: "startsWith (dropWhile isSpace T) url_key \<longleftrightarrow> startsWith m' url_key"
      unfolding r1 by (rule startsWith_line) (simp add: url_key_def)
    show ?thesis
    proof (cases "(takeWhile blank L = [] \<and> takeWhile isSpace m = []) \<or> \<not> startsWith m' url_key")
      case True
      with c1 c2 have "match_pattern T = None" by (intro none) blast
      moreover from True Cons have "match_lines L = None"
        by (simp add: match_lines_def Let_def m'_def)
      ultimately show ?thesis by (simp add: T_def L_def)
    next
      case False
      with c1 c2 have ws1: "takeWhile isSpace T \<noteq> []" and key: "startsWith (dropWhile isSpace T) url_key"
        and key': "startsWith m' url_key" by blast+
      have r2: "drop (length url_key) (dropWhile isSpace T) = x @ tailLines after"
        unfolding r1 x_def using key' by (rule startsWith_drop)
      have ml0: "match_lines L =
          (if \<not> blank x then
             (if takeWhile isSpace x \<noteq> [] \<and> endpoint (dropWhile isSpace x)
              then Some after else None)
           else (case dropWhile blank after of [] \<Rightarrow> None
                 | e # after' \<Rightarrow> if endpoint (dropWhile isSpace e) then Some after' else None))"
        using False Cons by (auto simp: match_lines_def Let_def m'_def x_def)
      show ?thesis
      proof (cases "blank x")
        case nb: False
        have ws2: "takeWhile isSpace (x @ tailLines after) = takeWhile isSpace x"
          using nb by (simp add: takeWhile_space_line)
        have r3: "dropWhile isSpace (x @ tailLines after) = dropWhile isSpace x @ tailLines after"
          using nb by (simp add: dropWhile_space_line)
        have cu: "\<forall>c\<in>set (dropWhile isSpace x). \<not> isLineTerminator c"
          by (rule clean_x) (auto dest: set_dropWhileD)
        note rl = rest_of_line [OF cu, of after]
        have ml: "match_lines L =
            (if takeWhile isSpace x \<noteq> [] \<and> endpoint (dropWhile isSpace x) then Some after else None)"
          by (simp add: ml0 nb)
        show ?thesis
        proof (cases "takeWhile isSpace x \<noteq> [] \<and> endpoint (dropWhile isSpace x)")
          case True
          have "match_pattern T = Some (take (length T - length (tailLines after)) T, tailLines after)"
            using ws1 key True by (intro some) (simp_all add: r2 ws2 r3 rl)
          with True ml show ?thesis by (simp add: T_def L_def)
        next
          case no: False
          have "match_pattern T = None"
            using no by (intro none) (simp add: r2 ws2 r3 rl)
          with no ml show ?thesis by (simp add: T_def L_def)
        qed
      next
        case bl: True
        have r3: "dropWhile isSpace (x @ tailLines after) =
            (case dropWhile blank after of [] \<Rightarrow> []
             | e # after' \<Rightarrow> dropWhile isSpace e @ tailLines after')"
          using bl by (simp add: dropWhile_space_line dropWhile_space_tail)
        show ?thesis
        proof (cases "dropWhile blank after")
          case Nil
          with r3 have "dropWhile isSpace (x @ tailLines after) = []" by simp
          then have "takeWhile (\<lambda>c. \<not> isLineTerminator c)
              (dropWhile isSpace (x @ tailLines after)) = []" by (simp only: takeWhile.simps)
          then have "\<not> endpoint (takeWhile (\<lambda>c. \<not> isLineTerminator c)
              (dropWhile isSpace (x @ tailLines after)))"
            using endpoint_nonempty by metis
          then have "match_pattern T = None" by (intro none) (simp add: r2)
          moreover have "match_lines L = None"
            by (simp add: ml0 bl Nil)
          ultimately show ?thesis by (simp add: T_def L_def)
        next
          case e: (Cons e after')
          then have "after \<noteq> []" by auto
          then obtain t where t: "tailLines after = CHR 0x0A # t"
            by (cases after) (auto simp: tailLines_Cons)
          have ws2: "takeWhile isSpace (x @ tailLines after) \<noteq> []"
            using bl t by (simp add: takeWhile_space_line nl_space)
          have "clean_lines (e # after')"
            using clean_dropWhile [OF clean_after, of blank] e by simp
          then have cu: "\<forall>c\<in>set (dropWhile isSpace e). \<not> isLineTerminator c"
            by (auto simp: clean_lines_def dest: set_dropWhileD)
          note rl = rest_of_line [OF cu, of after']
          have r3': "dropWhile isSpace (x @ tailLines after) = dropWhile isSpace e @ tailLines after'"
            using r3 e by simp
          have ml: "match_lines L = (if endpoint (dropWhile isSpace e) then Some after' else None)"
            by (simp add: ml0 bl e)
          show ?thesis
          proof (cases "endpoint (dropWhile isSpace e)")
            case True
            have "match_pattern T = Some (take (length T - length (tailLines after')) T, tailLines after')"
              using ws1 key True ws2 by (intro some) (simp_all add: r2 r3' rl)
            with True ml show ?thesis by (simp add: T_def L_def)
          next
            case no: False
            have "match_pattern T = None"
              using no by (intro none) (simp add: r2 r3' rl)
            with no ml show ?thesis by (simp add: T_def L_def)
          qed
        qed
      qed
    qed
  qed
qed

lemma match_lines_suffix: "match_lines L = Some R \<Longrightarrow> \<exists>P. P \<noteq> [] \<and> L = P @ R"
proof -
  assume a: "match_lines L = Some R"
  from a obtain m after where m: "dropWhile blank L = m # after"
    by (auto simp: match_lines_def split: list.splits)
  have L: "L = (takeWhile blank L @ [m]) @ after"
    using takeWhile_dropWhile_id [of blank L] m by simp
  from a m have "R = after \<or> (\<exists>e. dropWhile blank after = e # R)"
    by (auto simp: match_lines_def Let_def split: list.splits if_splits)
  then show ?thesis
  proof
    assume "R = after"
    with L show ?thesis by blast
  next
    assume "\<exists>e. dropWhile blank after = e # R"
    then obtain e where e: "dropWhile blank after = e # R" ..
    have "after = (takeWhile blank after @ [e]) @ R"
      using takeWhile_dropWhile_id [of blank after] e by simp
    with L have "L = (takeWhile blank L @ [m] @ takeWhile blank after @ [e]) @ R" by simp
    then show ?thesis by blast
  qed
qed

lemma matched_lines:
  assumes "match_lines L = Some R"
  shows "take (length (joinLines L) - length (tailLines R)) (joinLines L) =
           joinLines (take (length L - length R) L)"
    and "L = take (length L - length R) L @ R" and "0 < length L - length R"
proof -
  from match_lines_suffix [OF assms] obtain P where P: "P \<noteq> []" "L = P @ R" by blast
  then have t: "take (length L - length R) L = P" by simp
  from P show "L = take (length L - length R) L @ R" "0 < length L - length R"
    by (simp_all add: t)
  have "joinLines L = joinLines P @ tailLines R" using P by (simp add: joinLines_append)
  then show "take (length (joinLines L) - length (tailLines R)) (joinLines L) =
           joinLines (take (length L - length R) L)"
    by (simp add: t)
qed

lemma replace_within_line:
  "\<forall>c\<in>set l. \<not> isLineTerminator c \<Longrightarrow> replace_from False (l @ t) = l @ replace_from False t"
  by (induction l) (simp_all add: replace_from.simps)

lemma replace_line_break:
  "replace_from False (tailLines (r # R)) = CHR 0x0A # replace_from True (r @ tailLines R)"
  by (simp add: tailLines_Cons replace_from.simps nl_terminator)

lemma replace_no_match: "match_pattern s = None \<Longrightarrow> replace_from True s = replace_from False s"
  by (cases s) (simp_all add: replace_from.simps)

lemma last_matched:
  assumes "match_pattern s = Some (m, rest)"
  shows "\<not> isLineTerminator (last m)"
proof -
  define u where "u = takeWhile (\<lambda>c. \<not> isLineTerminator c)
      (dropWhile isSpace (drop (length url_key) (dropWhile isSpace s)))"
  from assms [unfolded match_pattern_Some]
  have e: "endpoint u" and m: "\<exists>p. m = p @ u"
    unfolding u_def by (blast, metis append_assoc)
  from e have ne: "u \<noteq> []" by (rule endpoint_nonempty)
  with m have "last m = last u" by auto
  moreover have "last u \<in> set u" using ne by simp
  ultimately show ?thesis unfolding u_def by (metis set_takeWhileD)
qed

lemma replace_match:
  assumes "match_pattern s = Some (m, rest)"
  shows "replace_from True s = m @ api_key @ replace_from False rest"
proof -
  from match_pattern_split [OF assms] have "s \<noteq> []" by auto
  then obtain c cs where s: "s = c # cs" by (auto simp: neq_Nil_conv)
  show ?thesis
    using assms last_matched [OF assms] unfolding s by (simp add: replace_from.simps)
qed

lemma rewrite_lines_Nil: "rewrite_lines L = [] \<longleftrightarrow> L = []"
  by (cases L) (auto simp: rewrite_lines.simps Let_def split: option.splits)

lemma clean_lines_Cons: "clean_lines (l # ls) \<longleftrightarrow> (\<forall>c\<in>set l. \<not> isLineTerminator c) \<and> clean_lines ls"
  by (simp add: clean_lines_def)

lemma clean_lines_append: "clean_lines (A @ B) \<longleftrightarrow> clean_lines A \<and> clean_lines B"
  by (auto simp: clean_lines_def)

lemma replace_lines: "clean_lines L \<Longrightarrow> replace_from True (joinLines L) = joinLines (rewrite_lines L)"
proof (induction L rule: rewrite_lines.induct)
  case 1
  show ?case by (simp add: joinLines_Nil rewrite_lines.simps replace_from.simps)
next
  case (2 l ls)
  have tail: "replace_from False (tailLines R) = tailLines (rewrite_lines R)"
    if "replace_from True (joinLines R) = joinLines (rewrite_lines R)" for R
  proof (cases R)
    case Nil
    then show ?thesis by (simp add: tailLines_Nil rewrite_lines.simps replace_from.simps)
  next
    case (Cons r R')
    then have "rewrite_lines R \<noteq> []" by (simp add: rewrite_lines_Nil)
    from tailLines_joinLines [OF this] that Cons show ?thesis
      by (simp add: replace_line_break joinLines_Cons)
  qed
  show ?case
  proof (cases "match_lines (l # ls)")
    case None
    have cl: "\<forall>c\<in>set l. \<not> isLineTerminator c" and cls: "clean_lines ls"
      using "2.prems" by (simp_all add: clean_lines_Cons)
    have "match_pattern (l @ tailLines ls) = None"
      using match_pattern_lines [OF "2.prems"] None by simp
    then have "replace_from True (l @ tailLines ls) = replace_from False (l @ tailLines ls)"
      by (rule replace_no_match)
    also have "\<dots> = l @ replace_from False (tailLines ls)"
      using cl by (rule replace_within_line)
    also have "\<dots> = l @ tailLines (rewrite_lines ls)"
      using tail [OF "2.IH"(1) [OF None cls]] by simp
    finally show ?thesis using None by (simp add: joinLines_Cons rewrite_lines.simps)
  next
    case (Some R)
    define n where "n = length (l # ls) - length R"
    note ml = matched_lines [OF Some, folded n_def]
    have cR: "clean_lines R" using "2.prems" ml(2) by (metis clean_lines_append)
    have "match_pattern (joinLines (l # ls)) = Some (joinLines (take n (l # ls)), tailLines R)"
      using match_pattern_lines [OF "2.prems"] Some ml(1) by (simp add: joinLines_Cons)
    then have "replace_from True (joinLines (l # ls)) =
        joinLines (take n (l # ls)) @ api_key @ replace_from False (tailLines R)"
      by (rule replace_match)
    also have "\<dots> = joinLines (take n (l # ls)) @ api_key @ tailLines (rewrite_lines R)"
      using tail [OF "2.IH"(2) [OF Some n_def cR]] by simp
    also have "\<dots> = joinLines (take (n - 1) (l # ls) @ [(l # ls) ! (n - 1) @ api_key] @ rewrite_lines R)"
    proof -
      have lt: "n - 1 < length (l # ls)" using ml(3) by (simp add: n_def)
      have "take n (l # ls) = take (n - 1) (l # ls) @ [(l # ls) ! (n - 1)]"
        using take_Suc_conv_app_nth [OF lt] ml(3) by simp
      then have "joinLines (take n (l # ls)) @ api_key =
          joinLines (take (n - 1) (l # ls) @ [(l # ls) ! (n - 1) @ api_key])"
        by (cases "take (n - 1) (l # ls)") (simp_all add: joinLines_Cons tailLines_append tailLines_Cons tailLines_Nil)
      then show ?thesis
        using joinLines_append [of "take (n - 1) (l # ls) @ [(l # ls) ! (n - 1) @ api_key]" "rewrite_lines R"]
        by simp
    qed
    finally show ?thesis using Some by (simp add: rewrite_lines.simps n_def Let_def)
  qed
qed

lemma updateContent_rewrite_lines:
  "clean_lines cm \<Longrightarrow> updateContent cm True = Some (joinLines (rewrite_lines cm))"
  by (simp add: updateContent_def getValue_def replace_lines)

lemma updateContent_no_scene: "updateContent cm False = None"
  by (simp add: updateContent_def)

lemma match_lines_other:
  "\<not> blank l \<Longrightarrow> \<not> startsWith (dropWhile isSpace l) url_key \<Longrightarrow> match_lines (l # ls) = None"
  by (simp add: match_lines_def Let_def)

lemma match_lines_entry:
  assumes i: "takeWhile isSpace l \<noteq> []" and d: "dropWhile isSpace l = url_key @ CHR '' '' # u"
    and u: "u \<noteq> []" "\<not> isSpace (hd u)"
  shows "match_lines (l # ls) = (if endpoint u then Some ls else None)"
proof -
  have nb: "\<not> blank l"
  proof
    assume "blank l"
    then have "dropWhile isSpace l = []" by (simp add: blank_def list_all_iff)
    then show False unfolding d by simp
  qed
  have k: "startsWith (dropWhile isSpace l) url_key"
    unfolding d by (simp add: startsWith_def)
  have r2: "drop (length url_key) (dropWhile isSpace l) = CHR '' '' # u"
    unfolding d by simp
  have sp: "isSpace (CHR '' '')" by (simp add: isSpace_def)
  have nb2: "\<not> blank (CHR '' '' # u)"
    using u by (cases u) (auto simp: blank_def)
  have dw: "dropWhile isSpace (CHR '' '' # u) = u"
    using u sp by (cases u) auto
  have t: "takeWhile isSpace (CHR '' '' # u) \<noteq> []" using sp by simp
  have dl: "dropWhile blank (l # ls) = l # ls" using nb by simp
  show ?thesis
    unfolding match_lines_def dl list.case Let_def r2 dw
    using nb k nb2 t i by simp
qed

lemma endpoint_other_host: "endpoint ''https://example.org/mapzen/com/{z}/{x}/{y}.mvt''"
  by code_simp

lemma endpoint_hyphen: "\<not> endpoint ''https://tile.mapzen.com/osm-all/{z}/{x}/{y}.mvt''"
  by code_simp

lemma rewrite_lines_other_host:
  "rewrite_lines
     [''sources:'', ''    osm:'', ''        type: MVT'',
      ''        url: https://example.org/mapzen/com/{z}/{x}/{y}.mvt''] =
   [''sources:'', ''    osm:'', ''        type: MVT'',
    ''        url: https://example.org/mapzen/com/{z}/{x}/{y}.mvt??api_key=vector-tiles-x4i7gmA'']"
proof -
  have 1: "match_lines (''sources:'' # ls) = None" for ls
    by (rule match_lines_other) (simp_all add: blank_def isSpace_def startsWith_def url_key_def)
  have 2: "match_lines (''    osm:'' # ls) = None" for ls
    by (rule match_lines_other) (simp_all add: blank_def isSpace_def startsWith_def url_key_def)
  have 3: "match_lines (''        type: MVT'' # ls) = None" for ls
    by (rule match_lines_other) (simp_all add: blank_def isSpace_def startsWith_def url_key_def)
  have 4: "match_lines [''        url: https://example.org/mapzen/com/{z}/{x}/{y}.mvt''] = Some []"
    using match_lines_entry [of "''        url: https://example.org/mapzen/com/{z}/{x}/{y}.mvt''"
        "''https://example.org/mapzen/com/{z}/{x}/{y}.mvt''" "[]"] endpoint_other_host
    by (simp add: isSpace_def url_key_def)
  show ?thesis
    by (simp add: rewrite_lines.simps 1 2 3 4 api_key_def)
qed

lemma rewrite_lines_hyphen:
  "rewrite_lines
     [''sources:'', ''    osm:'', ''        type: MVT'',
      ''        url: https://tile.mapzen.com/osm-all/{z}/{x}/{y}.mvt''] =
   [''sources:'', ''    osm:'', ''        type: MVT'',
    ''        url: https://tile.mapzen.com/osm-all/{z}/{x}/{y}.mvt'']"
proof -
  have 1: "match_lines (''sources:'' # ls) = None" for ls
    by (rule match_lines_other) (simp_all add: blank_def isSpace_def startsWith_def url_key_def)
  have 2: "match_lines (''    osm:'' # ls) = None" for ls
    by (rule match_lines_other) (simp_all add: blank_def isSpace_def startsWith_def url_key_def)
  have 3: "match_lines (''        type: MVT'' # ls) = None" for ls
    by (rule match_lines_other) (simp_all add: blank_def isSpace_def startsWith_def url_key_def)
  have 4: "match_lines [''        url: https://tile.mapzen.com/osm-all/{z}/{x}/{y}.mvt''] = None"
    using match_lines_entry [of "''        url: https://tile.mapzen.com/osm-all/{z}/{x}/{y}.mvt''"
        "''https://tile.mapzen.com/osm-all/{z}/{x}/{y}.mvt''" "[]"] endpoint_hyphen
    by (simp add: isSpace_def url_key_def)
  show ?thesis
    by (simp add: rewrite_lines.simps 1 2 3 4)
qed

text \<open>
  White space of the pattern matches line breaks too, so a match may run over lines: a
  \<open>url:\<close> entry that is not indented is matched after an empty line, and an endpoint
  on the line below a \<open>url:\<close> key is matched with the key.
\<close>

lemma updateContent_across_lines:
  "updateContent [[], ''url: a.mapzen.com/x.mvt''] True =
     Some (CHR 0x0A # ''url: a.mapzen.com/x.mvt??api_key=vector-tiles-x4i7gmA'') \<and>
   updateContent [''  url:'', ''  a.mapzen.com/x.mvt''] True =
     Some (''  url:'' @ CHR 0x0A # ''  a.mapzen.com/x.mvt??api_key=vector-tiles-x4i7gmA'')"
proof -
  have e: "endpoint ''a.mapzen.com/x.mvt''"
    by (simp add: endpoint_def endpoint_at_def tile_formats_def isUrlChar_def
        isLineTerminator_def upt_rec_numeral)
  have m: "match_pattern (CHR 0x0A # ''url: a.mapzen.com/x.mvt'') =
      Some (CHR 0x0A # ''url: a.mapzen.com/x.mvt'', [])"
    unfolding match_pattern_Some
    by (simp add: isSpace_def isLineTerminator_def startsWith_def url_key_def e)
  have u: "updateContent [[], ''url: a.mapzen.com/x.mvt''] True =
     Some (CHR 0x0A # ''url: a.mapzen.com/x.mvt??api_key=vector-tiles-x4i7gmA'')"
    by (simp add: updateContent_def getValue_def joinLines_def tailLines_def
        replace_from.simps m api_key_def)
  have m2: "match_pattern (''  url:'' @ CHR 0x0A # ''  a.mapzen.com/x.mvt'') =
      Some (''  url:'' @ CHR 0x0A # ''  a.mapzen.com/x.mvt'', [])"
    unfolding match_pattern_Some
    by (simp add: isSpace_def isLineTerminator_def startsWith_def url_key_def e)
  have u2: "updateContent [''  url:'', ''  a.mapzen.com/x.mvt''] True =
     Some (''  url:'' @ CHR 0x0A # ''  a.mapzen.com/x.mvt??api_key=vector-tiles-x4i7gmA'')"
    using m2
    by (simp add: updateContent_def getValue_def joinLines_def tailLines_def
        replace_from.simps api_key_def)
  from u u2 show ?thesis by blast
qed

text \<open>
  C10: \<open>updateContent\<close> does not append the key to exactly the \<open>url:\<close> entries that point
  at a \<open>mapzen.com\<close> tile endpoint. The dot of \<open>mapzen.com\<close> is not escaped in the
  pattern, as the dots of the two character classes are, and matches any character: an
  entry that points at another host, with \<open>mapzen/com\<close> in its path, gets the key. The
  character classes have no hyphen: an entry that points at a \<open>mapzen.com\<close> endpoint
  with a hyphen in its path gets none.
\<close>

theorem updateContent_keys_other_host:
  "updateContent
     [''sources:'', ''    osm:'', ''        type: MVT'',
      ''        url: https://example.org/mapzen/com/{z}/{x}/{y}.mvt''] True =
   Some (joinLines
     [''sources:'', ''    osm:'', ''        type: MVT'',
      ''        url: https://example.org/mapzen/com/{z}/{x}/{y}.mvt??api_key=vector-tiles-x4i7gmA'']) \<and>
   updateContent
     [''sources:'', ''    osm:'', ''        type: MVT'',
      ''        url: https://tile.mapzen.com/osm-all/{z}/{x}/{y}.mvt''] True =
   Some (joinLines
     [''sources:'', ''    osm:'', ''        type: MVT'',
      ''        url: https://tile.mapzen.com/osm-all/{z}/{x}/{y}.mvt''])"
proof
  have c: "clean_lines
     [''sources:'', ''    osm:'', ''        type: MVT'',
      ''        url: https://example.org/mapzen/com/{z}/{x}/{y}.mvt'']"
    by (simp add: clean_lines_def isLineTerminator_def)
  show "updateContent
     [''sources:'', ''    osm:'', ''        type: MVT'',
      ''        url: https://example.org/mapzen/com/{z}/{x}/{y}.mvt''] True =
   Some (joinLines
     [''sources:'', ''    osm:'', ''        type: MVT'',
      ''        url: https://example.org/mapzen/com/{z}/{x}/{y}.mvt??api_key=vector-tiles-x4i7gmA''])"
    unfolding updateContent_rewrite_lines [OF c] rewrite_lines_other_host ..
  have c: "clean_lines
     [''sources:'', ''    osm:'', ''        type: MVT'',
      ''        url: https://tile.mapzen.com/osm-all/{z}/{x}/{y}.mvt'']"
    by (simp add: clean_lines_def isLineTerminator_def)
  show "updateContent
     [''sources:'', ''    osm:'', ''        type: MVT'',
      ''        url: https://tile.mapzen.com/osm-all/{z}/{x}/{y}.mvt''] True =
   Some (joinLines
     [''sources:'', ''    osm:'', ''        type: MVT'',
      ''        url: https://tile.mapzen.com/osm-all/{z}/{x}/{y}.mvt''])"
    unfolding updateContent_rewrite_lines [OF c] rewrite_lines_hyphen ..
qed

subsection \<open>\<open>fixKeyLines\<close>\<close>






end
